theory Spec2Isabelle
  imports Main "HOL-Library.Word" "HOL-Library.Sublist"
begin

unbundle bit_operations_syntax

section \<open>ALSCalendarParser: extraction, content keys and snapshot diff\<close>

text \<open>
  A shallow embedding of the Lambda handler of the repository (the latest revision of
  \<^verbatim>\<open>main.go\<close>): the checksum and key derivation, the snapshot diff \<^verbatim>\<open>processEvents\<close>
  against the DynamoDB table, the HTML extractor with its text normalizer, and the
  notification trigger of \<^verbatim>\<open>HandleRequest\<close>.

  Go strings are byte sequences, so they are \<^typ>\<open>string\<close> here (a list of 8-bit
  characters); non-ASCII text appears as its UTF-8 bytes.
\<close>

subsection \<open>Instants and the civil calendar (package time)\<close>

text \<open>
  A \<^verbatim>\<open>time.Time\<close> is modelled as the instant it denotes: the number of nanoseconds since
  1970-01-01T00:00:00Z. Calendar fields are read in UTC, the location of every value
  produced by \<^verbatim>\<open>time.Parse\<close> for a layout without zone, and the local zone of the Lambda
  runtime. The 64-bit range of Go's representation is not modelled.
\<close>

type_synonym Time = int

definition nsPerSecond :: int where
  "nsPerSecond = 1000000000"

definition nsPerDay :: int where
  "nsPerDay = 86400 * nsPerSecond"

definition isLeap :: "int \<Rightarrow> bool" where
  "isLeap year = (year mod 4 = 0 \<and> (year mod 100 \<noteq> 0 \<or> year mod 400 = 0))"

definition daysIn :: "int \<Rightarrow> int \<Rightarrow> int" where
  "daysIn m year =
     (if m = 2 then (if isLeap year then 29 else 28)
      else if m = 4 \<or> m = 6 \<or> m = 9 \<or> m = 11 then 30 else 31)"

text \<open>Days between 1970-01-01 and a date of the proleptic Gregorian calendar.\<close>

definition daysFromCivil :: "int \<Rightarrow> int \<Rightarrow> int \<Rightarrow> int" where
  "daysFromCivil y m d =
     (let y' = (if m \<le> 2 then y - 1 else y);
          era = y' div 400;
          yoe = y' - era * 400;
          doy = (153 * (if m > 2 then m - 3 else m + 9) + 2) div 5 + d - 1;
          doe = yoe * 365 + yoe div 4 - yoe div 100 + doy
      in era * 146097 + doe - 719468)"

text \<open>The inverse: year, month and day of a day number.\<close>

definition civilFromDays :: "int \<Rightarrow> int \<times> int \<times> int" where
  "civilFromDays z0 =
     (let z = z0 + 719468;
          era = z div 146097;
          doe = z - era * 146097;
          yoe = (doe - doe div 1460 + doe div 36524 - doe div 146096) div 365;
          doy = doe - (365 * yoe + yoe div 4 - yoe div 100);
          mp = (5 * doy + 2) div 153;
          d = doy - (153 * mp + 2) div 5 + 1;
          m = (if mp < 10 then mp + 3 else mp - 9);
          y = yoe + era * 400
      in (if m \<le> 2 then y + 1 else y, m, d))"

text \<open>\<^verbatim>\<open>time.Date(y, m, d, 0, 0, 0, 0, time.UTC)\<close> for a valid date.\<close>

definition Date :: "int \<Rightarrow> int \<Rightarrow> int \<Rightarrow> Time" where
  "Date y m d = daysFromCivil y m d * nsPerDay"

definition Year :: "Time \<Rightarrow> int" where
  "Year t = fst (civilFromDays (t div nsPerDay))"

definition Month :: "Time \<Rightarrow> int" where
  "Month t = fst (snd (civilFromDays (t div nsPerDay)))"

definition Day :: "Time \<Rightarrow> int" where
  "Day t = snd (snd (civilFromDays (t div nsPerDay)))"

text \<open>\<^verbatim>\<open>t.Weekday()\<close>: Sunday is 0; 1970-01-01 was a Thursday.\<close>

definition Weekday :: "Time \<Rightarrow> int" where
  "Weekday t = (t div nsPerDay + 4) mod 7"

definition Friday :: int where
  "Friday = 5"

definition After :: "Time \<Rightarrow> Time \<Rightarrow> bool" where
  "After t u = (t > u)"

definition Before :: "Time \<Rightarrow> Time \<Rightarrow> bool" where
  "Before t u = (t < u)"

text \<open>
  \<^verbatim>\<open>t.AddDate(0, 0, days)\<close>: the same wall clock reading \<open>days\<close> calendar days later,
  which in UTC is \<open>days\<close> times 24 hours later.
\<close>

definition AddDate :: "Time \<Rightarrow> int \<Rightarrow> Time" where
  "AddDate t days = t + days * nsPerDay"

subsubsection \<open>Decimal fields\<close>

definition digitChar :: "nat \<Rightarrow> char" where
  "digitChar n = char_of (48 + n)"

fun digits :: "nat \<Rightarrow> nat \<Rightarrow> string" where
  "digits 0 n = []"
| "digits (Suc fuel) n = (if n < 10 then [digitChar n] else digits fuel (n div 10) @ [digitChar (n mod 10)])"

definition decimal :: "nat \<Rightarrow> string" where
  "decimal n = digits (Suc n) n"

text \<open>\<^verbatim>\<open>appendInt(b, x, width)\<close> of package time: a sign, then the decimal digits padded
  with zeros to \<open>width\<close>.\<close>

definition appendInt :: "int \<Rightarrow> nat \<Rightarrow> string" where
  "appendInt x width =
     (let ds = decimal (nat \<bar>x\<bar>)
      in (if x < 0 then ''-'' else '''') @ replicate (width - length ds) CHR ''0'' @ ds)"

text \<open>\<^verbatim>\<open>t.Format("20060102")\<close>.\<close>

definition Format20060102 :: "Time \<Rightarrow> string" where
  "Format20060102 t = appendInt (Year t) 4 @ appendInt (Month t) 2 @ appendInt (Day t) 2"

definition isDigit :: "char \<Rightarrow> bool" where
  "isDigit c = (48 \<le> (of_char c :: nat) \<and> (of_char c :: nat) \<le> 57)"

definition digitVal :: "char \<Rightarrow> int" where
  "digitVal c = int (of_char c) - 48"

text \<open>
  \<^verbatim>\<open>time.Parse("20060102", value)\<close>: four digits of year, two digits of month in
  1..12, two digits of day within the month, and nothing after them. The result is
  midnight UTC of that date; \<open>None\<close> is a parse error.
\<close>

fun Parse20060102 :: "string \<Rightarrow> Time option" where
  "Parse20060102 [y1, y2, y3, y4, m1, m2, d1, d2] =
     (if \<not> (isDigit y1 \<and> isDigit y2 \<and> isDigit y3 \<and> isDigit y4) then None
      else if \<not> (isDigit m1 \<and> isDigit m2) then None
      else if \<not> (isDigit d1 \<and> isDigit d2) then None
      else
        let year = 1000 * digitVal y1 + 100 * digitVal y2 + 10 * digitVal y3 + digitVal y4;
            month = 10 * digitVal m1 + digitVal m2;
            day = 10 * digitVal d1 + digitVal d2
        in if month \<le> 0 \<or> 12 < month then None
           else if day < 1 \<or> day > daysIn month year then None
           else Some (Date year month day))"
| "Parse20060102 _ = None"

declare Parse20060102.simps [simp del]

subsection \<open>SHA-256 (crypto/sha256, FIPS 180-4)\<close>

type_synonym u32 = "32 word"
type_synonym byte = "8 word"
type_synonym hash256 = "u32 \<times> u32 \<times> u32 \<times> u32 \<times> u32 \<times> u32 \<times> u32 \<times> u32"

definition rotr :: "nat \<Rightarrow> u32 \<Rightarrow> u32" where
  "rotr n x = drop_bit n x OR push_bit (32 - n) x"

text \<open>
  The round constants (the first 32 bits of the fractional parts of the cube roots of
  the first 64 primes) and the initial hash value (likewise for the square roots of the
  first 8 primes), in decimal.
\<close>

definition K256 :: "u32 list" where
  "K256 = [
    1116352408, 1899447441, 3049323471, 3921009573, 961987163, 1508970993,
    2453635748, 2870763221, 3624381080, 310598401, 607225278, 1426881987,
    1925078388, 2162078206, 2614888103, 3248222580, 3835390401, 4022224774,
    264347078, 604807628, 770255983, 1249150122, 1555081692, 1996064986,
    2554220882, 2821834349, 2952996808, 3210313671, 3336571891, 3584528711,
    113926993, 338241895, 666307205, 773529912, 1294757372, 1396182291,
    1695183700, 1986661051, 2177026350, 2456956037, 2730485921, 2820302411,
    3259730800, 3345764771, 3516065817, 3600352804, 4094571909, 275423344,
    430227734, 506948616, 659060556, 883997877, 958139571, 1322822218,
    1537002063, 1747873779, 1955562222, 2024104815, 2227730452, 2361852424,
    2428436474, 2756734187, 3204031479, 3329325298]"

definition initHash :: hash256 where
  "initHash = (
    1779033703, 3144134277, 1013904242, 2773480762,
    1359893119, 2600822924, 528734635, 1541459225)"

definition bigSigma0 :: "u32 \<Rightarrow> u32" where
  "bigSigma0 x = rotr 2 x XOR rotr 13 x XOR rotr 22 x"

definition bigSigma1 :: "u32 \<Rightarrow> u32" where
  "bigSigma1 x = rotr 6 x XOR rotr 11 x XOR rotr 25 x"

definition smallSigma0 :: "u32 \<Rightarrow> u32" where
  "smallSigma0 x = rotr 7 x XOR rotr 18 x XOR drop_bit 3 x"

definition smallSigma1 :: "u32 \<Rightarrow> u32" where
  "smallSigma1 x = rotr 17 x XOR rotr 19 x XOR drop_bit 10 x"

definition Ch :: "u32 \<Rightarrow> u32 \<Rightarrow> u32 \<Rightarrow> u32" where
  "Ch x y z = (x AND y) XOR (NOT x AND z)"

definition Maj :: "u32 \<Rightarrow> u32 \<Rightarrow> u32 \<Rightarrow> u32" where
  "Maj x y z = (x AND y) XOR (x AND z) XOR (y AND z)"

text \<open>The message schedule: \<open>n\<close> further words appended to the sixteen of the block.\<close>

fun schedule :: "nat \<Rightarrow> u32 list \<Rightarrow> u32 list" where
  "schedule 0 w = w"
| "schedule (Suc n) w =
     schedule n (w @ [smallSigma1 (w ! (length w - 2)) + w ! (length w - 7)
                      + smallSigma0 (w ! (length w - 15)) + w ! (length w - 16)])"

fun rounds :: "hash256 \<Rightarrow> u32 list \<Rightarrow> u32 list \<Rightarrow> hash256" where
  "rounds (a, b, c, d, e, f, g, h) (k # ks) (w # ws) =
     (let t1 = h + bigSigma1 e + Ch e f g + k + w;
          t2 = bigSigma0 a + Maj a b c
      in rounds (t1 + t2, a, b, c, d + t1, e, f, g) ks ws)"
| "rounds st _ _ = st"

definition compress :: "hash256 \<Rightarrow> u32 list \<Rightarrow> hash256" where
  "compress hs blk =
     (case (hs, rounds hs K256 (schedule 48 blk)) of
        ((h0, h1, h2, h3, h4, h5, h6, h7), (a, b, c, d, e, f, g, h)) \<Rightarrow>
          (h0 + a, h1 + b, h2 + c, h3 + d, h4 + e, h5 + f, h6 + g, h7 + h))"

fun bigEndianWords :: "byte list \<Rightarrow> u32 list" where
  "bigEndianWords (a # b # c # d # r) =
     (push_bit 24 (ucast a) OR push_bit 16 (ucast b) OR push_bit 8 (ucast c) OR ucast d)
       # bigEndianWords r"
| "bigEndianWords _ = []"

definition pad :: "byte list \<Rightarrow> byte list" where
  "pad m = m @ [0x80] @ replicate ((119 - length m mod 64) mod 64) 0 @
     map (\<lambda>i. ucast (drop_bit (8 * i) (word_of_nat (8 * length m) :: 64 word)))
       [7, 6, 5, 4, 3, 2, 1, 0]"

fun blocks :: "nat \<Rightarrow> hash256 \<Rightarrow> u32 list \<Rightarrow> hash256" where
  "blocks 0 hs ws = hs"
| "blocks (Suc n) hs ws = blocks n (compress hs (take 16 ws)) (drop 16 ws)"

definition wordBytes :: "u32 \<Rightarrow> byte list" where
  "wordBytes w = [ucast (drop_bit 24 w), ucast (drop_bit 16 w), ucast (drop_bit 8 w), ucast w]"

text \<open>\<^verbatim>\<open>sha256.Sum256(data)\<close>: the 32 bytes of the digest.\<close>

definition Sum256 :: "byte list \<Rightarrow> byte list" where
  "Sum256 m =
     (let ws = bigEndianWords (pad m)
      in case blocks (length ws div 16) initHash ws of
           (h0, h1, h2, h3, h4, h5, h6, h7) \<Rightarrow>
             wordBytes h0 @ wordBytes h1 @ wordBytes h2 @ wordBytes h3 @
             wordBytes h4 @ wordBytes h5 @ wordBytes h6 @ wordBytes h7)"

subsection \<open>Checksum and key\<close>

definition hexDigit :: "nat \<Rightarrow> char" where
  "hexDigit n = (if n < 10 then char_of (48 + n) else char_of (87 + n))"

definition hexByte :: "byte \<Rightarrow> string" where
  "hexByte b = [hexDigit (unat b div 16), hexDigit (unat b mod 16)]"

text \<open>\<^verbatim>\<open>fmt.Sprintf("%x", hash)\<close> for a byte array: two lower-case digits per byte.\<close>

definition Sprintf_x :: "byte list \<Rightarrow> string" where
  "Sprintf_x bs = concat (map hexByte bs)"

definition bytesOf :: "string \<Rightarrow> byte list" where
  "bytesOf s = map (\<lambda>c. word_of_nat (of_char c)) s"

definition generateChecksum :: "string \<Rightarrow> string" where
  "generateChecksum description = Sprintf_x (Sum256 (bytesOf description))"

text \<open>
  \<^verbatim>\<open>generateEventKey\<close>: the slice \<^verbatim>\<open>checksum[:8]\<close> panics when the checksum has fewer
  than 8 bytes; that is the result \<open>None\<close>.
\<close>

definition generateEventKey :: "Time \<Rightarrow> string \<Rightarrow> string option" where
  "generateEventKey date checksum =
     (if length checksum < 8 then None
      else Some (Format20060102 date @ ''_'' @ take 8 checksum))"

subsection \<open>Data model\<close>

record Event =
  EventDate :: Time
  EventDescription :: string

record DynamoDBEvent =
  EventKey :: string
  EventDate :: Time
  EventDesc :: string
  EventChecksum :: string

record ChangeReport =
  DeletedCount :: int
  DeletedEvents :: "Event list"
  AddedCount :: int
  AddedEvents :: "Event list"
  UpcomingEvents :: "Event list"

text \<open>The key \<^verbatim>\<open>processEvents\<close> computes for a current event (its lines 127 and 128).\<close>

definition eventKeyOf :: "Event \<Rightarrow> string option" where
  "eventKeyOf event =
     generateEventKey (Event.EventDate event) (generateChecksum (EventDescription event))"

definition isHexDigit :: "char \<Rightarrow> bool" where
  "isHexDigit c = (c \<in> set ''0123456789abcdef'')"

subsection \<open>The DynamoDB table and its client\<close>

text \<open>
  The table \<^verbatim>\<open>ALSEvents\<close> holds at most one item per value of its key attribute
  \<^verbatim>\<open>eventKey\<close>. It is modelled by the list of its items in scan order. Each call of
  the client either succeeds or fails; \<open>budget\<close> says how many further calls succeed
  before one fails (\<open>None\<close>: no call fails), a failed call leaves the table as it was
  and returns the error \<open>fault\<close>. The \<open>journal\<close> records every call with its outcome.

  The response to one \<^verbatim>\<open>Scan\<close> holds one page: the service stops reading at 1 MB of
  data, returns the items read so far in \<^verbatim>\<open>Items\<close> and the place to go on from in
  \<^verbatim>\<open>LastEvaluatedKey\<close>. \<open>scanPage\<close> is the number of items of the table that the page
  of a \<^verbatim>\<open>Scan\<close> holds; the page is the whole table when the table has no more items
  than that.
\<close>

datatype storeCall = Scan | PutItem DynamoDBEvent | DeleteItem string

record client =
  table :: "DynamoDBEvent list"
  scanPage :: nat
  budget :: "nat option"
  fault :: string
  journal :: "(storeCall \<times> bool) list"

definition keysOf :: "DynamoDBEvent list \<Rightarrow> string set" where
  "keysOf rows = set (map EventKey rows)"

definition putRow :: "DynamoDBEvent \<Rightarrow> DynamoDBEvent list \<Rightarrow> DynamoDBEvent list" where
  "putRow item rows =
     (if EventKey item \<in> keysOf rows
      then map (\<lambda>r. if EventKey r = EventKey item then item else r) rows
      else rows @ [item])"

definition deleteRow :: "string \<Rightarrow> DynamoDBEvent list \<Rightarrow> DynamoDBEvent list" where
  "deleteRow k rows = filter (\<lambda>r. EventKey r \<noteq> k) rows"

definition attempt :: "storeCall \<Rightarrow> client \<Rightarrow> bool \<times> client" where
  "attempt call c =
     (case budget c of
        None \<Rightarrow> (True, c\<lparr>journal := journal c @ [(call, True)]\<rparr>)
      | Some 0 \<Rightarrow> (False, c\<lparr>journal := journal c @ [(call, False)]\<rparr>)
      | Some (Suc n) \<Rightarrow> (True, c\<lparr>budget := Some n, journal := journal c @ [(call, True)]\<rparr>))"

text \<open>
  \<^verbatim>\<open>getAllEvents\<close>: one \<^verbatim>\<open>Scan\<close> with no \<^verbatim>\<open>ExclusiveStartKey\<close>, whose \<^verbatim>\<open>Items\<close> are
  unmarshalled and returned; \<^verbatim>\<open>LastEvaluatedKey\<close> is not read and no second
  \<^verbatim>\<open>Scan\<close> is made, so the result is the first page of the table. Any error is returned.
\<close>

definition getAllEvents :: "client \<Rightarrow> (string + DynamoDBEvent list) \<times> client" where
  "getAllEvents c =
     (case attempt Scan c of
        (True, c') \<Rightarrow> (Inr (take (scanPage c') (table c')), c')
      | (False, c') \<Rightarrow> (Inl (fault c'), c'))"

text \<open>\<^verbatim>\<open>putEvent\<close> and \<^verbatim>\<open>deleteEvent\<close> return the error, \<open>None\<close> for \<^verbatim>\<open>nil\<close>.\<close>

definition putEvent :: "client \<Rightarrow> DynamoDBEvent \<Rightarrow> string option \<times> client" where
  "putEvent c event =
     (case attempt (PutItem event) c of
        (True, c') \<Rightarrow> (None, c'\<lparr>table := putRow event (table c')\<rparr>)
      | (False, c') \<Rightarrow> (Some (fault c'), c'))"

definition deleteEvent :: "client \<Rightarrow> string \<Rightarrow> string option \<times> client" where
  "deleteEvent c eventKey =
     (case attempt (DeleteItem eventKey) c of
        (True, c') \<Rightarrow> (None, c'\<lparr>table := deleteRow eventKey (table c')\<rparr>)
      | (False, c') \<Rightarrow> (Some (fault c'), c'))"

subsection \<open>The snapshot diff\<close>

datatype failure = Error string | Panic string

text \<open>The loop over the stored items that fills \<^verbatim>\<open>existingMap\<close>.\<close>

definition buildExistingMap :: "DynamoDBEvent list \<Rightarrow> (string \<rightharpoonup> DynamoDBEvent)" where
  "buildExistingMap existingEvents = foldl (\<lambda>m e. m(EventKey e \<mapsto> e)) Map.empty existingEvents"

text \<open>
  The loop ``Process current events'': for each event its key is entered into
  \<^verbatim>\<open>currentMap\<close>; an event whose key is not in \<^verbatim>\<open>existingMap\<close> is appended to
  \<^verbatim>\<open>AddedEvents\<close> and stored, and a failed store returns at once; an event strictly
  between \<open>now\<close> and \<open>cutoff\<close> is appended to \<^verbatim>\<open>UpcomingEvents\<close>.
\<close>

fun processCurrentEvents ::
  "Time \<Rightarrow> Time \<Rightarrow> (string \<rightharpoonup> DynamoDBEvent) \<Rightarrow> Event list \<Rightarrow> ChangeReport \<Rightarrow>
   (string \<rightharpoonup> bool) \<Rightarrow> client \<Rightarrow> (failure + ChangeReport \<times> (string \<rightharpoonup> bool)) \<times> client" where
  "processCurrentEvents now cutoff existingMap [] report currentMap c =
     (Inr (report, currentMap), c)"
| "processCurrentEvents now cutoff existingMap (event # events) report currentMap c =
     (let checksum = generateChecksum (EventDescription event)
      in case generateEventKey (Event.EventDate event) checksum of
           None \<Rightarrow> (Inl (Panic ''slice bounds out of range''), c)
         | Some eventKey \<Rightarrow>
             (let currentMap1 = currentMap(eventKey \<mapsto> True);
                  stored =
                    (if existingMap eventKey = None
                     then (let report1 = report\<lparr>AddedEvents := AddedEvents report @ [event]\<rparr>;
                               dbEvent = \<lparr>EventKey = eventKey,
                                          EventDate = Event.EventDate event,
                                          EventDesc = EventDescription event,
                                          EventChecksum = checksum\<rparr>
                           in case putEvent c dbEvent of
                                (Some err, c1) \<Rightarrow>
                                  (Inl (Error (''error storing new event: '' @ err)), c1)
                              | (None, c1) \<Rightarrow> (Inr report1, c1))
                     else (Inr report, c))
              in case stored of
                   (Inl f, c1) \<Rightarrow> (Inl f, c1)
                 | (Inr report1, c1) \<Rightarrow>
                     (let report2 =
                        (if After (Event.EventDate event) now \<and> Before (Event.EventDate event) cutoff
                         then report1\<lparr>UpcomingEvents := UpcomingEvents report1 @ [event]\<rparr>
                         else report1)
                      in processCurrentEvents now cutoff existingMap events report2 currentMap1 c1)))"

text \<open>
  The loop ``Find deleted events'': a stored item whose key is not in \<^verbatim>\<open>currentMap\<close>
  is appended to \<^verbatim>\<open>DeletedEvents\<close> and deleted from the table; a failed delete returns
  at once.
\<close>

fun findDeletedEvents ::
  "(string \<rightharpoonup> bool) \<Rightarrow> DynamoDBEvent list \<Rightarrow> ChangeReport \<Rightarrow> client \<Rightarrow>
   (failure + ChangeReport) \<times> client" where
  "findDeletedEvents currentMap [] report c = (Inr report, c)"
| "findDeletedEvents currentMap (existingEvent # rest) report c =
     (if currentMap (EventKey existingEvent) = None
      then (let report1 = report\<lparr>DeletedEvents := DeletedEvents report @
                            [\<lparr>Event.EventDate = DynamoDBEvent.EventDate existingEvent,
                              EventDescription = EventDesc existingEvent\<rparr>]\<rparr>
            in case deleteEvent c (EventKey existingEvent) of
                 (Some err, c1) \<Rightarrow> (Inl (Error (''error deleting event: '' @ err)), c1)
               | (None, c1) \<Rightarrow> findDeletedEvents currentMap rest report1 c1)
      else findDeletedEvents currentMap rest report c)"

text \<open>
  \<^verbatim>\<open>sort.Slice\<close> by \<^verbatim>\<open>EventDate.Before\<close>: the events in ascending order of date.
  (The Go sort does not promise an order among equal dates; insertion order is kept
  here.)
\<close>

definition sortByDate :: "Event list \<Rightarrow> Event list" where
  "sortByDate events = sort_key Event.EventDate events"

text \<open>
  \<^verbatim>\<open>processEvents\<close>. The reading of the clock, \<^verbatim>\<open>time.Now()\<close>, is the argument
  \<open>now\<close>. The result is the report or the error, and the client with the table as the
  run left it.
\<close>

definition processEvents :: "Time \<Rightarrow> Event list \<Rightarrow> client \<Rightarrow> (failure + ChangeReport) \<times> client" where
  "processEvents now events c =
     (let report = \<lparr>DeletedCount = 0, DeletedEvents = [], AddedCount = 0, AddedEvents = [],
                    UpcomingEvents = []\<rparr>
      in case getAllEvents c of
           (Inl err, c1) \<Rightarrow> (Inl (Error (''error getting existing events: '' @ err)), c1)
         | (Inr existingEvents, c1) \<Rightarrow>
             (let existingMap = buildExistingMap existingEvents;
                  cutoff = AddDate now 60
              in case processCurrentEvents now cutoff existingMap events report Map.empty c1 of
                   (Inl f, c2) \<Rightarrow> (Inl f, c2)
                 | (Inr (report1, currentMap), c2) \<Rightarrow>
                     (case findDeletedEvents currentMap existingEvents report1 c2 of
                        (Inl f, c3) \<Rightarrow> (Inl f, c3)
                      | (Inr report2, c3) \<Rightarrow>
                          (let report3 = report2\<lparr>UpcomingEvents := sortByDate (UpcomingEvents report2)\<rparr>;
                               report4 = report3\<lparr>DeletedCount := int (length (DeletedEvents report3))\<rparr>;
                               report5 = report4\<lparr>AddedCount := int (length (AddedEvents report4))\<rparr>
                           in (Inr report5, c3)))))"

subsection \<open>Traces of store calls\<close>

text \<open>
  Notions for speaking about the journal of a run: no call follows a failed one; the
  keys of the items put and deleted with success; the keys any call names; and the
  agreement of a result with the calls made (the result is an error exactly when a call
  failed).
\<close>

fun abortsAtFailure :: "(storeCall \<times> bool) list \<Rightarrow> bool" where
  "abortsAtFailure [] = True"
| "abortsAtFailure [x] = True"
| "abortsAtFailure (x # y # rest) = (snd x \<and> abortsAtFailure (y # rest))"

fun successfulPuts :: "(storeCall \<times> bool) list \<Rightarrow> string set" where
  "successfulPuts [] = {}"
| "successfulPuts ((PutItem r, True) # xs) = insert (EventKey r) (successfulPuts xs)"
| "successfulPuts (x # xs) = successfulPuts xs"

fun successfulDeletes :: "(storeCall \<times> bool) list \<Rightarrow> string set" where
  "successfulDeletes [] = {}"
| "successfulDeletes ((DeleteItem k, True) # xs) = insert k (successfulDeletes xs)"
| "successfulDeletes (x # xs) = successfulDeletes xs"

fun calledKeys :: "(storeCall \<times> bool) list \<Rightarrow> string set" where
  "calledKeys [] = {}"
| "calledKeys ((PutItem r, ok) # xs) = insert (EventKey r) (calledKeys xs)"
| "calledKeys ((DeleteItem k, ok) # xs) = insert k (calledKeys xs)"
| "calledKeys ((Scan, ok) # xs) = calledKeys xs"

text \<open>The keys of the current extraction.\<close>

definition currentKeys :: "Event list \<Rightarrow> string set" where
  "currentKeys events = {k. \<exists>e \<in> set events. eventKeyOf e = Some k}"

definition agrees :: "(failure + 'a) \<Rightarrow> (storeCall \<times> bool) list \<Rightarrow> bool" where
  "agrees res new = (case res of Inr _ \<Rightarrow> list_all snd new
                     | Inl f \<Rightarrow> \<not> list_all snd new \<and> (\<exists>msg. f = Error msg))"

subsection \<open>The scenario of the specification\<close>

text \<open>
  The event ``Elternabend'' of 2025-03-10 (midnight UTC is the instant
  1741564800 s), at 18:00 and, changed, at 19:00, with the items stored for them.
\<close>

definition elternabend18 :: Event where
  "elternabend18 = \<lparr>Event.EventDate = 1741564800000000000, EventDescription = ''Elternabend 18:00 Uhr''\<rparr>"

definition elternabend19 :: Event where
  "elternabend19 = \<lparr>Event.EventDate = 1741564800000000000, EventDescription = ''Elternabend 19:00 Uhr''\<rparr>"

definition stored18 :: DynamoDBEvent where
  "stored18 = \<lparr>EventKey = ''20250310_0644d0d5'', EventDate = 1741564800000000000,
     EventDesc = ''Elternabend 18:00 Uhr'',
     EventChecksum = ''0644d0d594a9628f22200ffbead04dca0b8f80f506166b39dd69ecf41aac38c1''\<rparr>"

definition stored19 :: DynamoDBEvent where
  "stored19 = \<lparr>EventKey = ''20250310_c8b4db77'', EventDate = 1741564800000000000,
     EventDesc = ''Elternabend 19:00 Uhr'',
     EventChecksum = ''c8b4db77c88efcfd6975f1c67036361adf92454ac1bef0583c5b93e7cfa748d0''\<rparr>"

text \<open>A table of these two items of which the page of a \<^verbatim>\<open>Scan\<close> holds the first.\<close>

definition twoPages :: client where
  "twoPages = \<lparr>table = [stored18, stored19], scanPage = 1, budget = None,
     fault = ''unavailable'', journal = []\<rparr>"

definition elternabendAt :: "Time \<Rightarrow> Event" where
  "elternabendAt t = \<lparr>Event.EventDate = t, EventDescription = ''Elternabend 18:00 Uhr''\<rparr>"

definition storedAt :: "string \<Rightarrow> Time \<Rightarrow> DynamoDBEvent" where
  "storedAt k t = \<lparr>EventKey = k, EventDate = t, EventDesc = ''Elternabend 18:00 Uhr'',
     EventChecksum = ''0644d0d594a9628f22200ffbead04dca0b8f80f506166b39dd69ecf41aac38c1''\<rparr>"

subsection \<open>The text normalizer\<close>

text \<open>
  The UTF-8 encodings of the code points of the class \<^verbatim>\<open>[\s\p{Zs}]\<close> of package regexp:
  \<^verbatim>\<open>\s\<close> is tab, line feed, form feed, carriage return and space; \<^verbatim>\<open>Zs\<close> is U+0020,
  U+00A0, U+1680, U+2000 to U+200A, U+202F, U+205F and U+3000.
\<close>

definition reSpaceEncodings :: "string list" where
  "reSpaceEncodings =
     [[CHR 0x09], [CHR 0x0A], [CHR 0x0C], [CHR 0x0D], [CHR 0x20],
      [CHR 0xC2, CHR 0xA0], [CHR 0xE1, CHR 0x9A, CHR 0x80],
      [CHR 0xE2, CHR 0x80, CHR 0x80], [CHR 0xE2, CHR 0x80, CHR 0x81],
      [CHR 0xE2, CHR 0x80, CHR 0x82], [CHR 0xE2, CHR 0x80, CHR 0x83],
      [CHR 0xE2, CHR 0x80, CHR 0x84], [CHR 0xE2, CHR 0x80, CHR 0x85],
      [CHR 0xE2, CHR 0x80, CHR 0x86], [CHR 0xE2, CHR 0x80, CHR 0x87],
      [CHR 0xE2, CHR 0x80, CHR 0x88], [CHR 0xE2, CHR 0x80, CHR 0x89],
      [CHR 0xE2, CHR 0x80, CHR 0x8A], [CHR 0xE2, CHR 0x80, CHR 0xAF],
      [CHR 0xE2, CHR 0x81, CHR 0x9F], [CHR 0xE3, CHR 0x80, CHR 0x80]]"

text \<open>
  The encodings of the code points for which \<^verbatim>\<open>unicode.IsSpace\<close> holds: tab, line
  feed, vertical tab, form feed, carriage return, space, U+0085, U+00A0, U+1680, U+2000
  to U+200A, U+2028, U+2029, U+202F, U+205F and U+3000.
\<close>

definition isSpaceEncodings :: "string list" where
  "isSpaceEncodings =
     [[CHR 0x09], [CHR 0x0A], [CHR 0x0B], [CHR 0x0C], [CHR 0x0D], [CHR 0x20],
      [CHR 0xC2, CHR 0x85], [CHR 0xC2, CHR 0xA0], [CHR 0xE1, CHR 0x9A, CHR 0x80],
      [CHR 0xE2, CHR 0x80, CHR 0x80], [CHR 0xE2, CHR 0x80, CHR 0x81],
      [CHR 0xE2, CHR 0x80, CHR 0x82], [CHR 0xE2, CHR 0x80, CHR 0x83],
      [CHR 0xE2, CHR 0x80, CHR 0x84], [CHR 0xE2, CHR 0x80, CHR 0x85],
      [CHR 0xE2, CHR 0x80, CHR 0x86], [CHR 0xE2, CHR 0x80, CHR 0x87],
      [CHR 0xE2, CHR 0x80, CHR 0x88], [CHR 0xE2, CHR 0x80, CHR 0x89],
      [CHR 0xE2, CHR 0x80, CHR 0x8A], [CHR 0xE2, CHR 0x80, CHR 0xA8],
      [CHR 0xE2, CHR 0x80, CHR 0xA9], [CHR 0xE2, CHR 0x80, CHR 0xAF],
      [CHR 0xE2, CHR 0x81, CHR 0x9F], [CHR 0xE3, CHR 0x80, CHR 0x80]]"

text \<open>
  The decoder accepts the well-formed encodings only and reads any other byte as U+FFFD,
  which is in neither class. So the rune decoded at the head of a string belongs to a
  class exactly when one of the encodings of the class is a prefix of the string, and the
  rune decoded at its end (\<^verbatim>\<open>utf8.DecodeLastRuneInString\<close>) belongs to it exactly when
  one is a suffix. The width in bytes of that rune, 0 when the rune is not of the class:
\<close>

definition headWidth :: "string list \<Rightarrow> string \<Rightarrow> nat" where
  "headWidth encs s = (case find (\<lambda>p. prefix p s) encs of None \<Rightarrow> 0 | Some p \<Rightarrow> length p)"

definition lastWidth :: "string list \<Rightarrow> string \<Rightarrow> nat" where
  "lastWidth encs s = (case find (\<lambda>p. suffix p s) encs of None \<Rightarrow> 0 | Some p \<Rightarrow> length p)"

text \<open>
  \<^verbatim>\<open>re.ReplaceAllString(s, " ")\<close> for \<^verbatim>\<open>re = [\s\p{Zs}]+\<close>: every maximal run of runes of
  the class becomes one space, every other byte is copied. The scan goes from the left;
  \<open>inRun\<close> says that the rune before the head belongs to the match being read. The
  scan steps over the other bytes one at a time: it meets the same matches as the scan
  rune by rune, since an encoding begins with a byte that is no continuation byte, and
  the decoder never steps over such a byte.
\<close>

fun replaceRuns :: "bool \<Rightarrow> string \<Rightarrow> string" where
  "replaceRuns inRun [] = []"
| "replaceRuns inRun (c # cs) =
     (let w = headWidth reSpaceEncodings (c # cs)
      in if w = 0 then c # replaceRuns False cs
         else (if inRun then [] else '' '') @ replaceRuns True (drop w (c # cs)))"

definition ReplaceAllString :: "string \<Rightarrow> string" where
  "ReplaceAllString s = replaceRuns False s"

text \<open>\<^verbatim>\<open>strings.TrimSpace\<close>: the leading and the trailing runes with
  \<^verbatim>\<open>unicode.IsSpace\<close> are cut off.\<close>

fun TrimLeftSpace :: "string \<Rightarrow> string" where
  "TrimLeftSpace [] = []"
| "TrimLeftSpace (c # cs) =
     (let w = headWidth isSpaceEncodings (c # cs)
      in if w = 0 then c # cs else TrimLeftSpace (drop w (c # cs)))"

fun TrimRightSpace :: "string \<Rightarrow> string" where
  "TrimRightSpace [] = []"
| "TrimRightSpace (c # cs) =
     (let w = lastWidth isSpaceEncodings (c # cs)
      in if w = 0 then c # cs else TrimRightSpace (take (length (c # cs) - w) (c # cs)))"

declare replaceRuns.simps [simp del] TrimLeftSpace.simps [simp del] TrimRightSpace.simps [simp del]

definition TrimSpace :: "string \<Rightarrow> string" where
  "TrimSpace s = TrimRightSpace (TrimLeftSpace s)"

text \<open>
  \<^verbatim>\<open>strings.ReplaceAll(s, old, new)\<close> for a non-empty \<open>old\<close>: the occurrences of
  \<open>old\<close> are found from the left, each search starting after the previous occurrence.
\<close>

fun ReplaceAll :: "string \<Rightarrow> string \<Rightarrow> string \<Rightarrow> string" where
  "ReplaceAll [] old new = []"
| "ReplaceAll (c # cs) old new =
     (if old \<noteq> [] \<and> prefix old (c # cs) then new @ ReplaceAll (drop (length old) (c # cs)) old new
      else c # ReplaceAll cs old new)"

text \<open>The en dash U+2013 between two spaces, and the hyphen between two spaces.\<close>

definition spacedEnDash :: string where
  "spacedEnDash = [CHR 0x20, CHR 0xE2, CHR 0x80, CHR 0x93, CHR 0x20]"

definition spacedHyphen :: string where
  "spacedHyphen = '' - ''"

definition cleanText :: "string \<Rightarrow> string" where
  "cleanText s = ReplaceAll (TrimSpace (ReplaceAllString s)) spacedEnDash spacedHyphen"

text \<open>\<^verbatim>\<open>strings.Contains(s, sub)\<close>.\<close>

fun Contains :: "string \<Rightarrow> string \<Rightarrow> bool" where
  "Contains [] sub = (sub = [])"
| "Contains (c # cs) sub = (prefix sub (c # cs) \<or> Contains cs sub)"

subsection \<open>Shapes of encodings and of normalized text\<close>

definition highByte :: "char \<Rightarrow> bool" where
  "highByte b = (128 \<le> (of_char b :: nat))"

definition contByte :: "char \<Rightarrow> bool" where
  "contByte b = (128 \<le> (of_char b :: nat) \<and> (of_char b :: nat) < 192)"

text \<open>An encoding is one ASCII byte, or a leading byte followed by continuation bytes.\<close>

fun wellFormedEnc :: "string \<Rightarrow> bool" where
  "wellFormedEnc [] = False"
| "wellFormedEnc [a] = (\<not> highByte a)"
| "wellFormedEnc (h # t) = (highByte h \<and> \<not> contByte h \<and> list_all contByte t)"

definition spaceTable :: "string list \<Rightarrow> bool" where
  "spaceTable encs = (list_all wellFormedEnc encs \<and> '' '' \<in> set encs)"

text \<open>Text in which every rune of \<^verbatim>\<open>[\s\p{Zs}]\<close> is a single space not followed by
  another such rune.\<close>

fun collapsed :: "string \<Rightarrow> bool" where
  "collapsed [] = True"
| "collapsed (c # cs) =
     (if headWidth reSpaceEncodings (c # cs) = 0 then collapsed cs
      else c = CHR '' '' \<and> headWidth reSpaceEncodings cs = 0 \<and> collapsed cs)"

text \<open>Two en dashes that share the space between them, and a text with mixed white space.\<close>

definition doubleDash :: string where
  "doubleDash = ''a '' @ [CHR 0xE2, CHR 0x80, CHR 0x93] @ '' '' @ [CHR 0xE2, CHR 0x80, CHR 0x93] @ '' b''"

definition mixedText :: string where
  "mixedText = [CHR 0x09] @ '' Elternabend'' @ [CHR 0xC2, CHR 0xA0, CHR 0x0A] @ ''18:00''
     @ [CHR 0xE2, CHR 0x80, CHR 0x89, CHR 0xE2, CHR 0x80, CHR 0x93, CHR 0xC2, CHR 0xA0]
     @ ''19:00 Uhr '' @ [CHR 0xE3, CHR 0x80, CHR 0x80]"

subsection \<open>The document tree (golang.org/x/net/html)\<close>

datatype NodeType = ErrorNode | TextNode | DocumentNode | ElementNode | CommentNode
  | DoctypeNode | RawNode

record Attribute =
  Namespace :: string
  Key :: string
  Val :: string

text \<open>A node with its type, data, attributes and children (the chain from
  \<^verbatim>\<open>FirstChild\<close> along \<^verbatim>\<open>NextSibling\<close>).\<close>

datatype Node = Node (Type: NodeType) (Data: string) (Attr: "Attribute list")
  (Children: "Node list")

subsection \<open>The extractor\<close>

fun getTextContent :: "Node \<Rightarrow> string" where
  "getTextContent (Node ty data attr children) =
     (if ty = TextNode then data else concat (map getTextContent children))"

text \<open>\<^verbatim>\<open>strings.Split(s, sep)\<close> for a non-empty separator.\<close>

fun Split :: "string \<Rightarrow> string \<Rightarrow> string list" where
  "Split [] sep = [[]]"
| "Split (c # cs) sep =
     (if sep \<noteq> [] \<and> prefix sep (c # cs) then [] # Split (drop (length sep) (c # cs)) sep
      else (case Split cs sep of p # ps \<Rightarrow> (c # p) # ps | [] \<Rightarrow> [[c]]))"

text \<open>
  The loop over the attributes of a node in \<^verbatim>\<open>traverse\<close>, on the variables
  \<^verbatim>\<open>hasEventsClass\<close>, \<^verbatim>\<open>ariaLabel\<close> and \<^verbatim>\<open>description\<close>.
\<close>

fun attributeLoop :: "Node \<Rightarrow> Attribute list \<Rightarrow> bool \<times> string \<times> string \<Rightarrow> bool \<times> string \<times> string" where
  "attributeLoop n [] state = state"
| "attributeLoop n (attr # attrs) (hasEventsClass, ariaLabel, description) =
     (let (hasEventsClass1, description1) =
            (if Key attr = ''class'' \<and> Val attr = ''events''
             then (True, cleanText (getTextContent n))
             else (hasEventsClass, description));
          ariaLabel1 = (if Key attr = ''aria-labelledby'' then Val attr else ariaLabel)
      in attributeLoop n attrs (hasEventsClass1, ariaLabel1, description1))"

text \<open>What \<^verbatim>\<open>traverse\<close> does at one node before it descends: the events so far, with
  the event of the node appended when the node is an event container.\<close>

definition visit :: "Node \<Rightarrow> Event list \<Rightarrow> Event list" where
  "visit n events =
     (if Type n = ElementNode then
        (case attributeLoop n (Attr n) (False, '''', '''') of
           (hasEventsClass, ariaLabel, description) \<Rightarrow>
             if hasEventsClass \<and> ariaLabel \<noteq> '''' then
               (let parts = Split ariaLabel ''-''
                in if length parts > 1 then
                     (let dateStr = parts ! (length parts - 1)
                      in if length dateStr = 8 then
                           (case Parse20060102 dateStr of
                              Some date \<Rightarrow>
                                events @ [\<lparr>Event.EventDate = date, EventDescription = description\<rparr>]
                            | None \<Rightarrow> events)
                         else events)
                   else events)
             else events)
      else events)"

fun traverse :: "Node \<Rightarrow> Event list \<Rightarrow> Event list" where
  "traverse (Node ty data attr children) events =
     fold traverse children (visit (Node ty data attr children) events)"

text \<open>
  \<^verbatim>\<open>extractEvents\<close>. The parser \<^verbatim>\<open>html.Parse\<close> is the argument \<open>html_Parse\<close>: it
  returns the document node or an error.
\<close>

definition extractEvents :: "(string \<Rightarrow> string + Node) \<Rightarrow> string \<Rightarrow> string + Event list" where
  "extractEvents html_Parse body =
     (case html_Parse body of
        Inl err \<Rightarrow> Inl (''error parsing HTML: '' @ err)
      | Inr doc \<Rightarrow> Inr (traverse doc []))"

subsection \<open>The rule for event containers, as the specification words it\<close>

text \<open>Every node of a tree, in document order.\<close>

fun nodes :: "Node \<Rightarrow> Node list" where
  "nodes (Node ty data attr children) = Node ty data attr children # concat (map nodes children)"

text \<open>The value of the attribute \<^verbatim>\<open>aria-labelledby\<close> of a node (of the last one, should
  the node carry several), empty when there is none.\<close>

definition ariaLabelledby :: "Node \<Rightarrow> string" where
  "ariaLabelledby n =
     (case filter (\<lambda>a. Key a = ''aria-labelledby'') (Attr n) of
        [] \<Rightarrow> ''''
      | a # as \<Rightarrow> Val (last (a # as)))"

text \<open>Its last dash-delimited segment: what follows the last dash.\<close>

definition dateSuffix :: "Node \<Rightarrow> string" where
  "dateSuffix n = rev (takeWhile (\<lambda>c. c \<noteq> CHR ''-'') (rev (ariaLabelledby n)))"

definition isEventContainer :: "Node \<Rightarrow> bool" where
  "isEventContainer n =
     (Type n = ElementNode
      \<and> (\<exists>a \<in> set (Attr n). Key a = ''class'' \<and> Val a = ''events'')
      \<and> CHR ''-'' \<in> set (ariaLabelledby n)
      \<and> length (dateSuffix n) = 8
      \<and> Parse20060102 (dateSuffix n) \<noteq> None)"

definition eventOfContainer :: "Node \<Rightarrow> Event" where
  "eventOfContainer n =
     \<lparr>Event.EventDate = the (Parse20060102 (dateSuffix n)),
      EventDescription = cleanText (getTextContent n)\<rparr>"

text \<open>A page with two candidate nodes, the second with an impossible date, and a page
  whose only container has no text.\<close>

definition textNode :: "string \<Rightarrow> Node" where
  "textNode s = Node TextNode s [] []"

definition element :: "string \<Rightarrow> (string \<times> string) list \<Rightarrow> Node list \<Rightarrow> Node" where
  "element tag attrs children =
     Node ElementNode tag (map (\<lambda>(k, v). \<lparr>Namespace = '''', Key = k, Val = v\<rparr>) attrs) children"

definition elternabendContainer :: Node where
  "elternabendContainer =
     element ''div'' [(''class'', ''events''), (''aria-labelledby'', ''ai1ec-day-20250310'')]
       [element ''a'' [(''href'', ''/elternabend'')]
          [textNode '' Elternabend  18:00'', element ''br'' [] [], textNode ''Uhr '']]"

definition calendarPage :: Node where
  "calendarPage = Node DocumentNode '''' []
     [element ''html'' []
       [element ''head'' [] [],
        element ''body'' []
         [elternabendContainer,
          element ''div'' [(''class'', ''events''), (''aria-labelledby'', ''ai1ec-day-20250230'')]
            [textNode ''kein Datum''],
          element ''div'' [(''class'', ''day''), (''aria-labelledby'', ''ai1ec-day-20250311'')]
            [textNode ''11'']]]]"

definition emptyContainerPage :: Node where
  "emptyContainerPage = Node DocumentNode '''' []
     [element ''html'' []
       [element ''head'' [] [],
        element ''body'' []
         [element ''div'' [(''class'', ''events''), (''aria-labelledby'', ''ai1ec-day-20250310'')]
            [element ''span'' [] [textNode ''  '']]]]]"

subsection \<open>The handler\<close>

record Response =
  StatusCode :: int
  Body :: string
  Headers :: "string \<rightharpoonup> string"

text \<open>
  What the handler meets outside the program, one field for each call: the errors of
  \<^verbatim>\<open>config.LoadDefaultConfig\<close>, \<^verbatim>\<open>http.NewRequest\<close> and \<^verbatim>\<open>httpClient.Do\<close> (\<open>None\<close>
  for \<^verbatim>\<open>nil\<close>), the result of \<^verbatim>\<open>io.ReadAll\<close>, the parser \<^verbatim>\<open>html.Parse\<close>, the client of
  the table, the clock as read in \<^verbatim>\<open>processEvents\<close> and as read for the weekday,
  \<^verbatim>\<open>json.Marshal\<close> on a report, and the two functions of the repository that the claims
  do not look into: \<^verbatim>\<open>createBody\<close>, which never returns an error, and \<^verbatim>\<open>sendEmail\<close>,
  which delivers the message, returns an error, or ends the process in \<^verbatim>\<open>log.Fatal\<close>.
\<close>

datatype sendOutcome = Delivered | Refused string | Fatal

record environment =
  configError :: "string option"
  requestError :: "string option"
  doError :: "string option"
  readAll :: "string + string"
  parseHTML :: "string \<Rightarrow> string + Node"
  dynamo :: client
  nowDiff :: Time
  nowNotify :: Time
  json_Marshal :: "ChangeReport \<Rightarrow> string + string"
  createBody :: "ChangeReport \<Rightarrow> string"
  sendEmail :: "string \<Rightarrow> sendOutcome"

text \<open>How an invocation ends: with a response, by leaving the process, or in a panic.\<close>

datatype ending = Returned Response | Exited | Panicked string

text \<open>An invocation: its ending, the client as it leaves it, and the messages handed to
  \<^verbatim>\<open>sendEmail\<close>.\<close>

record invocation =
  ending :: ending
  dynamoAfter :: client
  emails :: "string list"

definition quoted :: "string \<Rightarrow> string" where
  "quoted s = [CHR 0x22] @ s @ [CHR 0x22]"

definition createErrorResponse :: "string \<Rightarrow> Response" where
  "createErrorResponse err =
     \<lparr>StatusCode = 500, Body = ''{'' @ quoted ''error'' @ '':'' @ quoted err @ ''}'',
      Headers = [''Content-Type'' \<mapsto> ''application/json'',
                 ''Access-Control-Allow-Origin'' \<mapsto> ''*'']\<rparr>"

definition HandleRequest :: "environment \<Rightarrow> invocation" where
  "HandleRequest env =
     (let failed = (\<lambda>msg c. \<lparr>ending = Returned (createErrorResponse msg), dynamoAfter = c,
                               emails = []\<rparr>)
      in case configError env of
           Some err \<Rightarrow> failed (''unable to load SDK config: '' @ err) (dynamo env)
         | None \<Rightarrow>
        (case requestError env of
           Some err \<Rightarrow> failed (''error creating request: '' @ err) (dynamo env)
         | None \<Rightarrow>
        (case doError env of
           Some err \<Rightarrow> failed (''error making request: '' @ err) (dynamo env)
         | None \<Rightarrow>
        (case readAll env of
           Inl err \<Rightarrow> failed (''error reading response body: '' @ err) (dynamo env)
         | Inr body \<Rightarrow>
        (case extractEvents (parseHTML env) body of
           Inl err \<Rightarrow> failed (''error extracting events: '' @ err) (dynamo env)
         | Inr events \<Rightarrow>
        (case processEvents (nowDiff env) events (dynamo env) of
           (Inl (Panic p), c) \<Rightarrow> \<lparr>ending = Panicked p, dynamoAfter = c, emails = []\<rparr>
         | (Inl (Error err), c) \<Rightarrow> failed (''error processing events: '' @ err) c
         | (Inr report, c) \<Rightarrow>
        (case json_Marshal env report of
           Inl err \<Rightarrow> failed (''error marshaling report: '' @ err) c
         | Inr reportJSON \<Rightarrow>
             (let ok = \<lparr>StatusCode = 200, Body = reportJSON,
                        Headers = [''Content-Type'' \<mapsto> ''application/json'',
                                   ''Access-Control-Allow-Origin'' \<mapsto> ''*'']\<rparr>
              in if AddedCount report > 0 \<or> Weekday (nowNotify env) = Friday then
                   (let emailBody = createBody env report
                    in case sendEmail env emailBody of
                         Delivered \<Rightarrow>
                           \<lparr>ending = Returned ok, dynamoAfter = c, emails = [emailBody]\<rparr>
                       | Refused err \<Rightarrow>
                           \<lparr>ending = Returned (createErrorResponse (''error sending email: '' @ err)),
                            dynamoAfter = c, emails = [emailBody]\<rparr>
                       | Fatal \<Rightarrow> \<lparr>ending = Exited, dynamoAfter = c, emails = [emailBody]\<rparr>)
                 else \<lparr>ending = Returned ok, dynamoAfter = c, emails = []\<rparr>))))))))"

text \<open>An invocation on a non-summary day (Monday 2025-03-10) and one on a Friday
  (2025-03-14), each finding an empty calendar page while the table holds one item.\<close>

definition quietDay :: "Time \<Rightarrow> environment" where
  "quietDay t =
     \<lparr>configError = None, requestError = None, doError = None, readAll = Inr ''<html></html>'',
      parseHTML = (\<lambda>body. Inr (Node DocumentNode '''' [] [])),
      dynamo = \<lparr>table = [stored18], scanPage = 100, budget = None, fault = ''unavailable'', journal = []\<rparr>,
      nowDiff = t, nowNotify = t,
      json_Marshal = (\<lambda>report. Inr ''{}''),
      createBody = (\<lambda>report. ''<!DOCTYPE html>''),
      sendEmail = (\<lambda>body. Delivered)\<rparr>"

section \<open>Checksums and keys\<close>

lemma length_wordBytes: "length (wordBytes w) = 4"
  by (simp add: wordBytes_def)

lemma length_Sum256: "length (Sum256 m) = 32"
  by (simp add: Sum256_def Let_def length_wordBytes split: prod.split)

lemma length_Sprintf_x: "length (Sprintf_x bs) = 2 * length bs"
  by (induction bs) (simp_all add: Sprintf_x_def hexByte_def)

lemma length_generateChecksum: "length (generateChecksum d) = 64"
  by (simp add: generateChecksum_def length_Sprintf_x length_Sum256)

lemma hexDigit_isHexDigit: "n < 16 \<Longrightarrow> isHexDigit (hexDigit n)"
proof -
  assume "n < 16"
  then have "n \<in> set [0 ..< 16]" by simp
  moreover have "list_all (\<lambda>n. isHexDigit (hexDigit n)) [0 ..< 16]"
    by code_simp
  ultimately show ?thesis
    unfolding list_all_iff by blast
qed

lemma hexByte_isHexDigit: "list_all isHexDigit (hexByte b)"
proof -
  have "unat b < 256" using unsigned_less [of b] by simp
  then have "unat b div 16 < 16" by simp
  then show ?thesis
    by (simp add: hexByte_def hexDigit_isHexDigit)
qed

lemma Sprintf_x_isHexDigit: "list_all isHexDigit (Sprintf_x bs)"
  by (induction bs) (simp_all add: Sprintf_x_def hexByte_isHexDigit)

lemma checksum_Elternabend_18:
  "generateChecksum ''Elternabend 18:00 Uhr'' =
     ''0644d0d594a9628f22200ffbead04dca0b8f80f506166b39dd69ecf41aac38c1''"
  by code_simp

lemma checksum_Elternabend_19:
  "generateChecksum ''Elternabend 19:00 Uhr'' =
     ''c8b4db77c88efcfd6975f1c67036361adf92454ac1bef0583c5b93e7cfa748d0''"
  by code_simp

lemma Format_20250310: "Format20060102 (Date 2025 3 10) = ''20250310''"
  by code_simp

lemma Date_20250310: "Date 2025 3 10 = 1741564800000000000"
  by code_simp

lemma Format_1741564800: "Format20060102 1741564800000000000 = ''20250310''"
  by code_simp

text \<open>
  C10. For every description, \<^verbatim>\<open>generateChecksum\<close> returns a string of exactly 64
  lower-case hexadecimal digits, so the slice \<^verbatim>\<open>checksum[:8]\<close> in
  \<^verbatim>\<open>generateEventKey\<close> is within bounds and the key derivation of an event never panics.
\<close>

theorem generateChecksum_hex64_no_panic:
  "length (generateChecksum description) = 64
   \<and> list_all isHexDigit (generateChecksum description)
   \<and> generateEventKey date (generateChecksum description) \<noteq> None
   \<and> eventKeyOf event \<noteq> None"
proof -
  have "list_all isHexDigit (generateChecksum description)"
    by (simp add: generateChecksum_def Sprintf_x_isHexDigit)
  then show ?thesis
    by (simp add: length_generateChecksum generateEventKey_def eventKeyOf_def)
qed

text \<open>
  C2. The key of an event is its date in the layout \<^verbatim>\<open>20060102\<close> (YYYYMMDD), an
  underscore, and the first 8 hexadecimal characters of the SHA-256 digest of the
  description. It is therefore determined by date and description alone, and two events
  on the same date whose 8-character digest prefixes differ have different keys.
\<close>

theorem eventKey_derivation:
  "eventKeyOf event =
     Some (Format20060102 (Event.EventDate event) @ ''_'' @
           take 8 (Sprintf_x (Sum256 (bytesOf (EventDescription event)))))
   \<and> (Event.EventDate e1 = Event.EventDate e2 \<and> EventDescription e1 = EventDescription e2
        \<longrightarrow> eventKeyOf e1 = eventKeyOf e2)
   \<and> (Event.EventDate e1 = Event.EventDate e2
        \<and> take 8 (Sprintf_x (Sum256 (bytesOf (EventDescription e1))))
            \<noteq> take 8 (Sprintf_x (Sum256 (bytesOf (EventDescription e2))))
        \<longrightarrow> eventKeyOf e1 \<noteq> eventKeyOf e2)"
  using length_generateChecksum [of "EventDescription event"]
    length_generateChecksum [of "EventDescription e1"]
    length_generateChecksum [of "EventDescription e2"]
  by (simp add: eventKeyOf_def generateEventKey_def generateChecksum_def)

theorem eventKey_derivation_witness:
  "eventKeyOf elternabend18 = Some ''20250310_0644d0d5''
   \<and> eventKeyOf elternabend19 = Some ''20250310_c8b4db77''
   \<and> Event.EventDate elternabend18 = Event.EventDate elternabend19
   \<and> take 8 (Sprintf_x (Sum256 (bytesOf (EventDescription elternabend18)))) = ''0644d0d5''
   \<and> take 8 (Sprintf_x (Sum256 (bytesOf (EventDescription elternabend19)))) = ''c8b4db77''
   \<and> eventKeyOf elternabend18 \<noteq> eventKeyOf elternabend19
   \<and> Event.EventDate \<lparr>Event.EventDate = Date 2025 3 10, EventDescription = ''Elternabend 18:00 Uhr''\<rparr>
       = Event.EventDate elternabend18
   \<and> eventKeyOf \<lparr>Event.EventDate = Date 2025 3 10, EventDescription = ''Elternabend 18:00 Uhr''\<rparr>
       = eventKeyOf elternabend18"
proof -
  have d: "take 8 (Sprintf_x (Sum256 (bytesOf (EventDescription elternabend18)))) = ''0644d0d5''"
    "take 8 (Sprintf_x (Sum256 (bytesOf (EventDescription elternabend19)))) = ''c8b4db77''"
    using checksum_Elternabend_18 checksum_Elternabend_19
    by (simp_all add: generateChecksum_def elternabend18_def elternabend19_def)
  have f: "Format20060102 (Event.EventDate elternabend18) = ''20250310''"
    "Format20060102 (Event.EventDate elternabend19) = ''20250310''"
    by (simp_all add: elternabend18_def elternabend19_def Format_1741564800)
  have e: "Event.EventDate elternabend18 = Event.EventDate elternabend19"
    "Event.EventDate \<lparr>Event.EventDate = Date 2025 3 10, EventDescription = ''Elternabend 18:00 Uhr''\<rparr>
       = Event.EventDate elternabend18"
    "EventDescription \<lparr>Event.EventDate = Date 2025 3 10, EventDescription = ''Elternabend 18:00 Uhr''\<rparr>
       = EventDescription elternabend18"
    by (simp_all add: elternabend18_def elternabend19_def Date_20250310)
  from eventKey_derivation [of elternabend18 elternabend18 elternabend19]
    eventKey_derivation [of elternabend19
      "\<lparr>Event.EventDate = Date 2025 3 10, EventDescription = ''Elternabend 18:00 Uhr''\<rparr>"
      elternabend18]
  show ?thesis
    unfolding d f using e by simp
qed

section \<open>The snapshot diff\<close>

lemma keysOf_putRow: "keysOf (putRow item rows) = insert (EventKey item) (keysOf rows)"
  by (auto simp: putRow_def keysOf_def)

lemma keysOf_deleteRow: "keysOf (deleteRow k rows) = keysOf rows - {k}"
  by (auto simp: deleteRow_def keysOf_def)

lemma keysOf_simps:
  "keysOf [] = {}" "keysOf (r # rows) = insert (EventKey r) (keysOf rows)"
  by (simp_all add: keysOf_def)

lemma map_EventKey_replace:
  "map (\<lambda>r. EventKey (if EventKey r = EventKey item then item else r)) rows = map EventKey rows"
  by (induction rows) auto

lemma distinct_putRow:
  "distinct (map EventKey rows) \<Longrightarrow> distinct (map EventKey (putRow item rows))"
  by (simp add: putRow_def map_EventKey_replace keysOf_def comp_def)

lemma distinct_deleteRow:
  "distinct (map EventKey rows) \<Longrightarrow> distinct (map EventKey (deleteRow k rows))"
  by (simp add: deleteRow_def distinct_map_filter)

lemma dom_foldl_upd:
  "dom (foldl (\<lambda>m e. m(EventKey e \<mapsto> e)) m0 rows) = dom m0 \<union> keysOf rows"
  by (induction rows arbitrary: m0) (auto simp: keysOf_def)

lemma dom_buildExistingMap: "dom (buildExistingMap rows) = keysOf rows"
  by (simp add: buildExistingMap_def dom_foldl_upd)

lemma putEvent_ok:
  "putEvent c ev = (None, c') \<Longrightarrow>
     table c' = putRow ev (table c) \<and> journal c' = journal c @ [(PutItem ev, True)]"
  by (auto simp: putEvent_def attempt_def split: option.splits nat.splits)

lemma putEvent_err:
  "putEvent c ev = (Some err, c') \<Longrightarrow>
     table c' = table c \<and> journal c' = journal c @ [(PutItem ev, False)]"
  by (auto simp: putEvent_def attempt_def split: option.splits nat.splits)

lemma deleteEvent_ok:
  "deleteEvent c k = (None, c') \<Longrightarrow>
     table c' = deleteRow k (table c) \<and> journal c' = journal c @ [(DeleteItem k, True)]"
  by (auto simp: deleteEvent_def attempt_def split: option.splits nat.splits)

lemma deleteEvent_err:
  "deleteEvent c k = (Some err, c') \<Longrightarrow>
     table c' = table c \<and> journal c' = journal c @ [(DeleteItem k, False)]"
  by (auto simp: deleteEvent_def attempt_def split: option.splits nat.splits)

lemma getAllEvents_ok:
  "getAllEvents c = (Inr rows, c') \<Longrightarrow>
     rows = take (scanPage c) (table c) \<and> table c' = table c
     \<and> journal c' = journal c @ [(Scan, True)]"
  by (auto simp: getAllEvents_def attempt_def split: option.splits nat.splits)

lemma getAllEvents_err:
  "getAllEvents c = (Inl err, c') \<Longrightarrow>
     table c' = table c \<and> journal c' = journal c @ [(Scan, False)]"
  by (auto simp: getAllEvents_def attempt_def split: option.splits nat.splits)

lemma eventKeyOf_Some: "\<exists>k. eventKeyOf e = Some k"
  by (simp add: eventKeyOf_def generateEventKey_def length_generateChecksum)

lemma currentKeys_Cons:
  "eventKeyOf e = Some k \<Longrightarrow> currentKeys (e # es) = insert k (currentKeys es)"
  by (auto simp: currentKeys_def)

lemma processCurrentEvents_ok:
  "processCurrentEvents now cutoff em events report cm c = (Inr (report', cm'), c') \<Longrightarrow>
     keysOf (table c') = keysOf (table c) \<union> {k \<in> currentKeys events. em k = None}
     \<and> dom cm' = dom cm \<union> currentKeys events
     \<and> (distinct (map EventKey (table c)) \<longrightarrow> distinct (map EventKey (table c')))
     \<and> UpcomingEvents report' = UpcomingEvents report @
          filter (\<lambda>e. After (Event.EventDate e) now \<and> Before (Event.EventDate e) cutoff) events"
proof (induction events arbitrary: report cm c)
  case Nil
  then show ?case by (simp add: currentKeys_def)
next
  case (Cons e es)
  obtain k where k: "eventKeyOf e = Some k" using eventKeyOf_Some by blast
  then have gk: "generateEventKey (Event.EventDate e) (generateChecksum (EventDescription e)) = Some k"
    by (simp add: eventKeyOf_def)
  show ?case
  proof (cases "em k = None")
    case True
    let ?row = "\<lparr>EventKey = k, EventDate = Event.EventDate e, EventDesc = EventDescription e,
                  EventChecksum = generateChecksum (EventDescription e)\<rparr>"
    obtain r1 c1 where p: "putEvent c ?row = (r1, c1)" by (cases "putEvent c ?row")
    with Cons.prems gk True have r1: "r1 = None"
      by (cases r1) (simp_all add: Let_def)
    from p r1 have c1: "table c1 = putRow ?row (table c)" using putEvent_ok by blast
    let ?rep1 = "report\<lparr>AddedEvents := AddedEvents report @ [e]\<rparr>"
    let ?rep2 = "(if After (Event.EventDate e) now \<and> Before (Event.EventDate e) cutoff
                  then ?rep1\<lparr>UpcomingEvents := UpcomingEvents ?rep1 @ [e]\<rparr> else ?rep1)"
    from Cons.prems gk True p r1
    have rec: "processCurrentEvents now cutoff em es ?rep2 (cm(k \<mapsto> True)) c1 = (Inr (report', cm'), c')"
      by (simp add: Let_def)
    from Cons.IH [OF rec] c1 True show ?thesis
      by (auto simp: currentKeys_Cons [OF k] keysOf_putRow distinct_putRow)
  next
    case False
    let ?rep2 = "(if After (Event.EventDate e) now \<and> Before (Event.EventDate e) cutoff
                  then report\<lparr>UpcomingEvents := UpcomingEvents report @ [e]\<rparr> else report)"
    from Cons.prems gk False
    have rec: "processCurrentEvents now cutoff em es ?rep2 (cm(k \<mapsto> True)) c = (Inr (report', cm'), c')"
      by (simp add: Let_def)
    from Cons.IH [OF rec] False show ?thesis
      by (auto simp: currentKeys_Cons [OF k])
  qed
qed

lemma findDeletedEvents_ok:
  "findDeletedEvents cm rows report c = (Inr report', c') \<Longrightarrow>
     keysOf (table c') = keysOf (table c) - {k \<in> keysOf rows. cm k = None}
     \<and> (distinct (map EventKey (table c)) \<longrightarrow> distinct (map EventKey (table c')))
     \<and> UpcomingEvents report' = UpcomingEvents report"
proof (induction rows arbitrary: report c)
  case Nil
  then show ?case by (simp add: keysOf_simps)
next
  case (Cons r rs)
  show ?case
  proof (cases "cm (EventKey r) = None")
    case True
    obtain r1 c1 where d: "deleteEvent c (EventKey r) = (r1, c1)" by (cases "deleteEvent c (EventKey r)")
    with Cons.prems True have r1: "r1 = None"
      by (cases r1) (simp_all add: Let_def)
    from d r1 have c1: "table c1 = deleteRow (EventKey r) (table c)" using deleteEvent_ok by blast
    from Cons.prems True d r1 obtain rep1 where
      rec: "findDeletedEvents cm rs rep1 c1 = (Inr report', c')" and u: "UpcomingEvents rep1 = UpcomingEvents report"
      by (simp add: Let_def)
    from Cons.IH [OF rec] c1 True u show ?thesis
      by (auto simp: keysOf_deleteRow distinct_deleteRow keysOf_simps)
  next
    case False
    with Cons.prems have rec: "findDeletedEvents cm rs report c = (Inr report', c')" by simp
    from Cons.IH [OF rec] False show ?thesis
      by (auto simp: keysOf_simps)
  qed
qed

text \<open>
  A successful run: the keys it leaves in the table are those of the current events and
  those of the stored items beyond the page of the \<^verbatim>\<open>Scan\<close>; it keeps the table at one
  item per key; and it reports as upcoming the current events of the open window.
\<close>

lemma processEvents_ok:
  assumes "processEvents now events c = (Inr report, c')"
  shows "keysOf (table c') =
           currentKeys events \<union> (keysOf (table c) - keysOf (take (scanPage c) (table c)))"
    and "distinct (map EventKey (table c)) \<Longrightarrow> distinct (map EventKey (table c'))"
    and "UpcomingEvents report = sortByDate
          (filter (\<lambda>e. After (Event.EventDate e) now \<and> Before (Event.EventDate e) (AddDate now 60)) events)"
proof -
  let ?rep0 = "\<lparr>DeletedCount = 0, DeletedEvents = [], AddedCount = 0, AddedEvents = [], UpcomingEvents = []\<rparr>"
  obtain g c1 where g: "getAllEvents c = (g, c1)" by (cases "getAllEvents c")
  with assms obtain rows where rows: "g = Inr rows"
    by (cases g) (simp_all add: processEvents_def)
  from g rows have sc: "rows = take (scanPage c) (table c)" "table c1 = table c"
    using getAllEvents_ok by blast+
  have sub: "keysOf rows \<subseteq> keysOf (table c)"
    unfolding sc(1) keysOf_def using set_take_subset [of "scanPage c" "table c"] by auto
  obtain a c2 where a: "processCurrentEvents now (AddDate now 60) (buildExistingMap rows) events ?rep0 Map.empty c1 = (a, c2)"
    by (cases "processCurrentEvents now (AddDate now 60) (buildExistingMap rows) events ?rep0 Map.empty c1")
  with assms g rows obtain rep1 cm where ar: "a = Inr (rep1, cm)"
    by (cases a) (auto simp: processEvents_def Let_def)
  obtain d c3 where d: "findDeletedEvents cm rows rep1 c2 = (d, c3)"
    by (cases "findDeletedEvents cm rows rep1 c2")
  with assms g rows a ar obtain rep2 where dr: "d = Inr rep2"
    by (cases d) (auto simp: processEvents_def Let_def)
  from assms g rows a ar d dr have fin: "c' = c3"
     "UpcomingEvents report = sortByDate (UpcomingEvents rep2)"
    by (auto simp: processEvents_def Let_def)
  note A = processCurrentEvents_ok [OF a [unfolded ar]]
  note D = findDeletedEvents_ok [OF d [unfolded dr]]
  have em: "\<And>k. (buildExistingMap rows k = None) = (k \<notin> keysOf rows)"
    using dom_buildExistingMap [of rows] by (auto simp: domIff)
  have cm: "\<And>k. (cm k = None) = (k \<notin> currentKeys events)"
    using A by (auto simp: domIff)
  have "keysOf (table c') =
          (keysOf (table c) \<union> {k \<in> currentKeys events. k \<notin> keysOf rows})
            - {k \<in> keysOf rows. k \<notin> currentKeys events}"
    using A D sc(2) fin(1) by (simp add: em cm)
  also have "\<dots> = currentKeys events \<union> (keysOf (table c) - keysOf rows)"
    using sub by blast
  finally show "keysOf (table c') =
           currentKeys events \<union> (keysOf (table c) - keysOf (take (scanPage c) (table c)))"
    by (simp add: sc(1))
  from A D sc fin show "distinct (map EventKey (table c)) \<Longrightarrow> distinct (map EventKey (table c'))"
    by simp
  from A D fin show "UpcomingEvents report = sortByDate
          (filter (\<lambda>e. After (Event.EventDate e) now \<and> Before (Event.EventDate e) (AddDate now 60)) events)"
    by simp
qed

lemma abortsAtFailure_Cons:
  "abortsAtFailure (x # xs) = (xs = [] \<or> (snd x \<and> abortsAtFailure xs))"
  by (cases xs) simp_all

lemma abortsAtFailure_append:
  "list_all snd xs \<Longrightarrow> abortsAtFailure (xs @ ys) = abortsAtFailure ys"
  by (induction xs) (auto simp: abortsAtFailure_Cons)

lemma agrees_Cons_True: "agrees res ((call, True) # new) = agrees res new"
  by (simp add: agrees_def split: sum.split)

lemma processCurrentEvents_trace:
  "processCurrentEvents now cutoff em events report cm c = (res, c') \<Longrightarrow>
     \<exists>new. journal c' = journal c @ new
       \<and> abortsAtFailure new \<and> agrees res new
       \<and> successfulDeletes new = {} \<and> calledKeys new \<subseteq> currentKeys events
       \<and> keysOf (table c') = keysOf (table c) \<union> successfulPuts new"
proof (induction events arbitrary: report cm c)
  case Nil
  then have "journal c' = journal c @ []" "agrees res []" "keysOf (table c') = keysOf (table c)"
    by (auto simp: agrees_def)
  then show ?case
    by (intro exI [of _ "[]"]) simp
next
  case (Cons e es)
  obtain k where k: "eventKeyOf e = Some k" using eventKeyOf_Some by blast
  then have gk: "generateEventKey (Event.EventDate e) (generateChecksum (EventDescription e)) = Some k"
    by (simp add: eventKeyOf_def)
  note ck = currentKeys_Cons [OF k]
  show ?case
  proof (cases "em k = None")
    case True
    let ?row = "\<lparr>EventKey = k, EventDate = Event.EventDate e, EventDesc = EventDescription e,
                  EventChecksum = generateChecksum (EventDescription e)\<rparr>"
    obtain r1 c1 where p: "putEvent c ?row = (r1, c1)" by (cases "putEvent c ?row")
    show ?thesis
    proof (cases r1)
      case None
      from p None have c1: "table c1 = putRow ?row (table c)"
        "journal c1 = journal c @ [(PutItem ?row, True)]" using putEvent_ok by blast+
      let ?rep1 = "report\<lparr>AddedEvents := AddedEvents report @ [e]\<rparr>"
      let ?rep2 = "(if After (Event.EventDate e) now \<and> Before (Event.EventDate e) cutoff
                    then ?rep1\<lparr>UpcomingEvents := UpcomingEvents ?rep1 @ [e]\<rparr> else ?rep1)"
      from Cons.prems gk True p None
      have rec: "processCurrentEvents now cutoff em es ?rep2 (cm(k \<mapsto> True)) c1 = (res, c')"
        by (simp add: Let_def)
      from Cons.IH [OF rec] obtain new where new: "journal c' = journal c1 @ new"
        "abortsAtFailure new" "agrees res new"
        "successfulDeletes new = {}" "calledKeys new \<subseteq> currentKeys es"
        "keysOf (table c') = keysOf (table c1) \<union> successfulPuts new"
        by blast
      let ?new = "(PutItem ?row, True) # new"
      have n1: "journal c' = journal c @ ?new" using new(1) c1(2) by simp
      have n2: "abortsAtFailure ?new" using new(2) by (simp add: abortsAtFailure_Cons)
      have n3: "agrees res ?new" using new(3) by (simp add: agrees_Cons_True)
      have n4: "successfulDeletes ?new = {}" using new(4) by simp
      have n5: "calledKeys ?new \<subseteq> currentKeys (e # es)" using new(5) by (auto simp: ck)
      have n6: "keysOf (table c') = keysOf (table c) \<union> successfulPuts ?new"
        using new(6) c1(1) by (simp add: keysOf_putRow)
      from n1 n2 n3 n4 n5 n6 show ?thesis
        by (intro exI [of _ ?new] conjI)
    next
      case (Some err)
      from p Some have c1: "table c1 = table c"
        "journal c1 = journal c @ [(PutItem ?row, False)]" using putEvent_err by blast+
      from Cons.prems gk True p Some
      have res: "res = Inl (Error (''error storing new event: '' @ err))" "c' = c1"
        by (simp_all add: Let_def)
      let ?new = "[(PutItem ?row, False)]"
      have n1: "journal c' = journal c @ ?new" using res c1 by simp
      have n2: "abortsAtFailure ?new" by simp
      have n3: "agrees res ?new" using res by (simp add: agrees_def)
      have n4: "successfulDeletes ?new = {}" by simp
      have n5: "calledKeys ?new \<subseteq> currentKeys (e # es)" by (simp add: ck)
      have n6: "keysOf (table c') = keysOf (table c) \<union> successfulPuts ?new"
        using res c1 by simp
      from n1 n2 n3 n4 n5 n6 show ?thesis
        by (intro exI [of _ ?new] conjI)
    qed
  next
    case False
    let ?rep2 = "(if After (Event.EventDate e) now \<and> Before (Event.EventDate e) cutoff
                  then report\<lparr>UpcomingEvents := UpcomingEvents report @ [e]\<rparr> else report)"
    from Cons.prems gk False
    have rec: "processCurrentEvents now cutoff em es ?rep2 (cm(k \<mapsto> True)) c = (res, c')"
      by (simp add: Let_def)
    from Cons.IH [OF rec] obtain new where new: "journal c' = journal c @ new"
      "abortsAtFailure new" "agrees res new"
      "successfulDeletes new = {}" "calledKeys new \<subseteq> currentKeys es"
      "keysOf (table c') = keysOf (table c) \<union> successfulPuts new"
      by blast
    have n5: "calledKeys new \<subseteq> currentKeys (e # es)" using new(5) by (auto simp: ck)
    from new(1,2,3,4) n5 new(6) show ?thesis
      by (intro exI [of _ new] conjI)
  qed
qed

lemma findDeletedEvents_trace:
  "findDeletedEvents cm rows report c = (res, c') \<Longrightarrow>
     \<exists>new. journal c' = journal c @ new
       \<and> abortsAtFailure new \<and> agrees res new
       \<and> successfulPuts new = {} \<and> calledKeys new \<inter> dom cm = {}
       \<and> keysOf (table c') = keysOf (table c) - successfulDeletes new"
proof (induction rows arbitrary: report c)
  case Nil
  then have "journal c' = journal c @ []" "agrees res []" "keysOf (table c') = keysOf (table c)"
    by (auto simp: agrees_def)
  then show ?case
    by (intro exI [of _ "[]"]) simp
next
  case (Cons r rs)
  show ?case
  proof (cases "cm (EventKey r) = None")
    case True
    obtain r1 c1 where d: "deleteEvent c (EventKey r) = (r1, c1)"
      by (cases "deleteEvent c (EventKey r)")
    show ?thesis
    proof (cases r1)
      case None
      from d None have c1: "table c1 = deleteRow (EventKey r) (table c)"
        "journal c1 = journal c @ [(DeleteItem (EventKey r), True)]" using deleteEvent_ok by blast+
      from Cons.prems True d None obtain rep1 where
        rec: "findDeletedEvents cm rs rep1 c1 = (res, c')"
        by (simp add: Let_def)
      from Cons.IH [OF rec] obtain new where new: "journal c' = journal c1 @ new"
        "abortsAtFailure new" "agrees res new"
        "successfulPuts new = {}" "calledKeys new \<inter> dom cm = {}"
        "keysOf (table c') = keysOf (table c1) - successfulDeletes new"
        by blast
      let ?new = "(DeleteItem (EventKey r), True) # new"
      have n1: "journal c' = journal c @ ?new" using new(1) c1(2) by simp
      have n2: "abortsAtFailure ?new" using new(2) by (simp add: abortsAtFailure_Cons)
      have n3: "agrees res ?new" using new(3) by (simp add: agrees_Cons_True)
      have n4: "successfulPuts ?new = {}" using new(4) by simp
      have n5: "calledKeys ?new \<inter> dom cm = {}" using new(5) True by (simp add: domIff)
      have n6: "keysOf (table c') = keysOf (table c) - successfulDeletes ?new"
        using new(6) c1(1) by (auto simp: keysOf_deleteRow)
      from n1 n2 n3 n4 n5 n6 show ?thesis
        by (intro exI [of _ ?new] conjI)
    next
      case (Some err)
      from d Some have c1: "table c1 = table c"
        "journal c1 = journal c @ [(DeleteItem (EventKey r), False)]" using deleteEvent_err by blast+
      from Cons.prems True d Some
      have res: "res = Inl (Error (''error deleting event: '' @ err))" "c' = c1"
        by (simp_all add: Let_def)
      let ?new = "[(DeleteItem (EventKey r), False)]"
      have n1: "journal c' = journal c @ ?new" using res c1 by simp
      have n2: "abortsAtFailure ?new" by simp
      have n3: "agrees res ?new" using res by (simp add: agrees_def)
      have n4: "successfulPuts ?new = {}" by simp
      have n5: "calledKeys ?new \<inter> dom cm = {}" using True by (simp add: domIff)
      have n6: "keysOf (table c') = keysOf (table c) - successfulDeletes ?new"
        using res c1 by simp
      from n1 n2 n3 n4 n5 n6 show ?thesis
        by (intro exI [of _ ?new] conjI)
    qed
  next
    case False
    with Cons.prems have rec: "findDeletedEvents cm rs report c = (res, c')" by simp
    from Cons.IH [OF rec] show ?thesis .
  qed
qed

lemma successfulPuts_append: "successfulPuts (xs @ ys) = successfulPuts xs \<union> successfulPuts ys"
  by (induction xs rule: successfulPuts.induct) auto

lemma successfulDeletes_append:
  "successfulDeletes (xs @ ys) = successfulDeletes xs \<union> successfulDeletes ys"
  by (induction xs rule: successfulDeletes.induct) auto

lemma successfulPuts_called: "successfulPuts xs \<subseteq> calledKeys xs"
  by (induction xs rule: calledKeys.induct) (auto split: bool.splits, (case_tac ok; auto)+)

lemma successfulDeletes_called: "successfulDeletes xs \<subseteq> calledKeys xs"
  by (induction xs rule: calledKeys.induct) (auto, (case_tac ok; auto)+)

lemma failed_call_iff: "(\<not> list_all snd xs) = (\<exists>call. (call, False) \<in> set xs)"
  by (induction xs) auto

text \<open>
  C9. If a store operation (the scan, a put or a delete) fails during
  \<^verbatim>\<open>processEvents\<close>, the run returns an error and no report, and it makes no further
  store call; conversely an error is returned only when a call failed. Whatever the
  outcome, every item put with success before the end of the run is still in the table
  and every key deleted with success is still absent: nothing is rolled back.
\<close>

theorem processEvents_store_failure:
  assumes run: "processEvents now events c = (res, c')" and fresh: "journal c = []"
  shows "((\<exists>call. (call, False) \<in> set (journal c')) \<longleftrightarrow> (\<exists>msg. res = Inl (Error msg)))
    \<and> ((\<exists>report. res = Inr report) \<or> (\<exists>msg. res = Inl (Error msg)))
    \<and> abortsAtFailure (journal c')
    \<and> successfulPuts (journal c') \<subseteq> keysOf (table c')
    \<and> successfulDeletes (journal c') \<inter> keysOf (table c') = {}"
proof -
  let ?rep0 = "\<lparr>DeletedCount = 0, DeletedEvents = [], AddedCount = 0, AddedEvents = [], UpcomingEvents = []\<rparr>"
  obtain g c1 where g: "getAllEvents c = (g, c1)" by (cases "getAllEvents c")
  show ?thesis
  proof (cases g)
    case (Inl err)
    with g have "table c1 = table c" "journal c1 = [(Scan, False)]"
      using getAllEvents_err fresh by fastforce+
    moreover from run g Inl have "res = Inl (Error (''error getting existing events: '' @ err))" "c' = c1"
      by (simp_all add: processEvents_def)
    ultimately show ?thesis by simp
  next
    case (Inr rows)
    with g have sc: "rows = take (scanPage c) (table c)" "table c1 = table c"
        "journal c1 = [(Scan, True)]"
      using getAllEvents_ok fresh by fastforce+
    obtain a c2 where a: "processCurrentEvents now (AddDate now 60) (buildExistingMap rows) events ?rep0 Map.empty c1 = (a, c2)"
      by (cases "processCurrentEvents now (AddDate now 60) (buildExistingMap rows) events ?rep0 Map.empty c1")
    from processCurrentEvents_trace [OF a] obtain na where na: "journal c2 = journal c1 @ na"
      "abortsAtFailure na" "agrees a na"
      "successfulDeletes na = {}" "calledKeys na \<subseteq> currentKeys events"
      "keysOf (table c2) = keysOf (table c1) \<union> successfulPuts na"
      by blast
    show ?thesis
    proof (cases a)
      case (Inl f)
      with na(3) obtain msg where f: "f = Error msg" and bad: "\<not> list_all snd na"
        by (auto simp: agrees_def)
      from run g Inr a Inl have fin: "res = Inl f" "c' = c2"
        by (simp_all add: processEvents_def Let_def)
      have j: "journal c2 = (Scan, True) # na" using na(1) sc(3) by simp
      have "abortsAtFailure (journal c2)"
        using na(2) by (simp add: j abortsAtFailure_Cons)
      moreover have "\<exists>call. (call, False) \<in> set (journal c2)"
        using bad by (auto simp: j failed_call_iff)
      moreover have "successfulPuts (journal c2) \<subseteq> keysOf (table c2)"
        using na(6) by (auto simp: j)
      moreover have "successfulDeletes (journal c2) \<inter> keysOf (table c2) = {}"
        using na(4) by (simp add: j)
      ultimately show ?thesis using fin f by simp
    next
      case (Inr pair)
      obtain rep1 cm where pair: "pair = (rep1, cm)" by (cases pair)
      with na(3) Inr have good: "list_all snd na" by (simp add: agrees_def)
      from processCurrentEvents_ok [OF a [unfolded Inr pair]]
      have cm: "dom cm = currentKeys events" by simp
      obtain d c3 where d: "findDeletedEvents cm rows rep1 c2 = (d, c3)"
        by (cases "findDeletedEvents cm rows rep1 c2")
      from findDeletedEvents_trace [OF d] obtain nd where nd: "journal c3 = journal c2 @ nd"
        "abortsAtFailure nd" "agrees d nd"
        "successfulPuts nd = {}" "calledKeys nd \<inter> dom cm = {}"
        "keysOf (table c3) = keysOf (table c2) - successfulDeletes nd"
        by blast
      have j: "journal c3 = ((Scan, True) # na) @ nd" using nd(1) na(1) sc(3) by simp
      have ab: "abortsAtFailure (journal c3)"
      proof -
        have "list_all snd ((Scan, True) # na)" using good by simp
        then show ?thesis using nd(2) by (simp only: j abortsAtFailure_append)
      qed
      have fl: "(\<exists>call. (call, False) \<in> set (journal c3)) = (\<not> list_all snd nd)"
        using good by (fastforce simp: j failed_call_iff list_all_iff)
      have "successfulPuts na \<inter> successfulDeletes nd = {}"
        using successfulPuts_called [of na] successfulDeletes_called [of nd] na(5) nd(5) cm
        by blast
      then have pk: "successfulPuts (journal c3) \<subseteq> keysOf (table c3)"
        using na(6) nd(4,6) by (auto simp: j successfulPuts_append)
      have dk: "successfulDeletes (journal c3) \<inter> keysOf (table c3) = {}"
        using na(4) nd(6) by (auto simp: j successfulDeletes_append)
      show ?thesis
      proof (cases d)
        case (Inl f)
        with nd(3) obtain msg where f: "f = Error msg" and bad: "\<not> list_all snd nd"
          by (auto simp: agrees_def)
        from run g \<open>g = Inr rows\<close> a \<open>a = Inr pair\<close> pair d Inl have fin: "res = Inl f" "c' = c3"
          by (simp_all add: processEvents_def Let_def)
        with ab fl pk dk f bad show ?thesis by simp
      next
        case (Inr rep2)
        with nd(3) have ok: "list_all snd nd" by (simp add: agrees_def)
        from run g \<open>g = Inr rows\<close> a \<open>a = Inr pair\<close> pair d Inr have fin: "\<exists>report. res = Inr report" "c' = c3"
          by (auto simp: processEvents_def Let_def)
        with ab fl pk dk ok show ?thesis by auto
      qed
    qed
  qed
qed

lemma scenario_run:
  "processEvents 1741000000000000000 [elternabend19, elternabend19]
     \<lparr>table = [stored18], scanPage = 100, budget = None, fault = ''unavailable'', journal = []\<rparr>
   = (Inr \<lparr>DeletedCount = 1, DeletedEvents = [elternabend18], AddedCount = 2,
           AddedEvents = [elternabend19, elternabend19],
           UpcomingEvents = [elternabend19, elternabend19]\<rparr>,
      \<lparr>table = [stored19], scanPage = 100, budget = None, fault = ''unavailable'',
        journal = [(Scan, True), (PutItem stored19, True), (PutItem stored19, True),
                   (DeleteItem ''20250310_0644d0d5'', True)]\<rparr>)"
  by (simp add: processEvents_def getAllEvents_def attempt_def buildExistingMap_def Let_def
      elternabend18_def elternabend19_def stored18_def stored19_def
      checksum_Elternabend_18 checksum_Elternabend_19 Format_1741564800
      generateEventKey_def putEvent_def deleteEvent_def putRow_def deleteRow_def keysOf_def
      After_def Before_def AddDate_def nsPerDay_def nsPerSecond_def sortByDate_def)

lemma scenario_failing_run:
  "processEvents 1741000000000000000 [elternabend19, elternabend19]
     \<lparr>table = [stored18], scanPage = 100, budget = Some 2, fault = ''unavailable'', journal = []\<rparr>
   = (Inl (Error ''error storing new event: unavailable''),
      \<lparr>table = [stored18, stored19], scanPage = 100, budget = Some 0, fault = ''unavailable'',
        journal = [(Scan, True), (PutItem stored19, True), (PutItem stored19, False)]\<rparr>)"
  by (simp add: processEvents_def getAllEvents_def attempt_def buildExistingMap_def Let_def
      elternabend18_def elternabend19_def stored18_def stored19_def
      checksum_Elternabend_18 checksum_Elternabend_19 Format_1741564800
      generateEventKey_def putEvent_def deleteEvent_def putRow_def deleteRow_def keysOf_def
      After_def Before_def AddDate_def nsPerDay_def nsPerSecond_def sortByDate_def)

theorem processEvents_store_failure_witness:
  "processEvents 1741000000000000000 [elternabend19, elternabend19]
     \<lparr>table = [stored18], scanPage = 100, budget = Some 2, fault = ''unavailable'', journal = []\<rparr>
   = (Inl (Error ''error storing new event: unavailable''),
      \<lparr>table = [stored18, stored19], scanPage = 100, budget = Some 0, fault = ''unavailable'',
        journal = [(Scan, True), (PutItem stored19, True), (PutItem stored19, False)]\<rparr>)
   \<and> (PutItem stored19, False) \<in> set [(Scan, True), (PutItem stored19, True), (PutItem stored19, False)]
   \<and> abortsAtFailure [(Scan, True), (PutItem stored19, True), (PutItem stored19, False)]
   \<and> successfulPuts [(Scan, True), (PutItem stored19, True), (PutItem stored19, False)]
        \<subseteq> keysOf [stored18, stored19]
   \<and> EventKey stored19 \<in> keysOf [stored18, stored19]"
  using processEvents_store_failure [OF scenario_failing_run]
  by (simp add: scenario_failing_run keysOf_def)

text \<open>With a client none of whose calls fails, the run returns a report.\<close>

lemma putEvent_never_fails:
  "budget c = None \<Longrightarrow> \<exists>c'. putEvent c ev = (None, c') \<and> budget c' = None"
  by (simp add: putEvent_def attempt_def)

lemma deleteEvent_never_fails:
  "budget c = None \<Longrightarrow> \<exists>c'. deleteEvent c k = (None, c') \<and> budget c' = None"
  by (simp add: deleteEvent_def attempt_def)

lemma processCurrentEvents_succeeds:
  "budget c = None \<Longrightarrow>
     \<exists>report' cm' c'. processCurrentEvents now cutoff em events report cm c = (Inr (report', cm'), c')
       \<and> budget c' = None"
proof (induction events arbitrary: report cm c)
  case Nil
  then show ?case by simp
next
  case (Cons e es)
  obtain k where k: "generateEventKey (Event.EventDate e) (generateChecksum (EventDescription e)) = Some k"
    using eventKeyOf_Some [of e] by (auto simp: eventKeyOf_def)
  show ?case
  proof (cases "em k = None")
    case True
    let ?row = "\<lparr>EventKey = k, EventDate = Event.EventDate e, EventDesc = EventDescription e,
                  EventChecksum = generateChecksum (EventDescription e)\<rparr>"
    from putEvent_never_fails [OF Cons.prems] obtain c1 where
      c1: "putEvent c ?row = (None, c1)" "budget c1 = None" by blast
    from Cons.IH [OF c1(2)] k True c1(1) show ?thesis by (simp add: Let_def)
  next
    case False
    from False obtain y where "em k = Some y" by auto
    with Cons.IH [OF Cons.prems] k show ?thesis by (simp add: Let_def)
  qed
qed

lemma findDeletedEvents_succeeds:
  "budget c = None \<Longrightarrow> \<exists>report' c'. findDeletedEvents cm rows report c = (Inr report', c')"
proof (induction rows arbitrary: report c)
  case Nil
  then show ?case by simp
next
  case (Cons r rs)
  show ?case
  proof (cases "cm (EventKey r) = None")
    case True
    from deleteEvent_never_fails [OF Cons.prems] obtain c1 where
      c1: "deleteEvent c (EventKey r) = (None, c1)" "budget c1 = None" by blast
    from Cons.IH [OF c1(2)] True c1(1) show ?thesis by (simp add: Let_def)
  next
    case False
    from False obtain y where "cm (EventKey r) = Some y" by auto
    with Cons.IH [OF Cons.prems] show ?thesis by simp
  qed
qed

lemma processEvents_succeeds:
  assumes "budget c = None"
  shows "\<exists>report c'. processEvents now events c = (Inr report, c')"
proof -
  let ?rep0 = "\<lparr>DeletedCount = 0, DeletedEvents = [], AddedCount = 0, AddedEvents = [], UpcomingEvents = []\<rparr>"
  let ?c1 = "c\<lparr>journal := journal c @ [(Scan, True)]\<rparr>"
  let ?rows = "take (scanPage c) (table c)"
  have g: "getAllEvents c = (Inr ?rows, ?c1)" using assms by (simp add: getAllEvents_def attempt_def)
  have "budget ?c1 = None" using assms by simp
  from processCurrentEvents_succeeds [OF this] obtain rep1 cm c2 where
    a: "processCurrentEvents now (AddDate now 60) (buildExistingMap ?rows) events ?rep0 Map.empty ?c1
        = (Inr (rep1, cm), c2)" "budget c2 = None" by blast
  from findDeletedEvents_succeeds [OF a(2)] obtain rep2 c3 where
    d: "findDeletedEvents cm ?rows rep1 c2 = (Inr rep2, c3)" by blast
  from g a(1) d show ?thesis by (simp add: processEvents_def Let_def)
qed

text \<open>
  When the page of the \<^verbatim>\<open>Scan\<close> is the whole table, a successful run leaves exactly the
  keys of the current events.
\<close>

lemma processEvents_whole_table:
  assumes "processEvents now events c = (Inr report, c')" and "length (table c) \<le> scanPage c"
  shows "keysOf (table c') = currentKeys events"
  using processEvents_ok(1) [OF assms(1)] assms(2) by simp

lemma key_elternabend18: "eventKeyOf elternabend18 = Some ''20250310_0644d0d5''"
  by (simp add: eventKeyOf_def elternabend18_def generateEventKey_def
      checksum_Elternabend_18 Format_1741564800)

lemma twoPages_run:
  "processEvents 1741000000000000000 [elternabend18] twoPages
   = (Inr \<lparr>DeletedCount = 0, DeletedEvents = [], AddedCount = 0, AddedEvents = [],
           UpcomingEvents = [elternabend18]\<rparr>,
      \<lparr>table = [stored18, stored19], scanPage = 1, budget = None, fault = ''unavailable'',
        journal = [(Scan, True)]\<rparr>)"
  by (simp add: processEvents_def getAllEvents_def attempt_def buildExistingMap_def Let_def
      twoPages_def elternabend18_def elternabend19_def stored18_def stored19_def
      checksum_Elternabend_18 checksum_Elternabend_19 Format_1741564800
      generateEventKey_def putEvent_def deleteEvent_def putRow_def deleteRow_def keysOf_def
      After_def Before_def AddDate_def nsPerDay_def nsPerSecond_def sortByDate_def)

text \<open>
  C1. The claim: for every prior snapshot, after a successful run of \<^verbatim>\<open>processEvents\<close>
  the keys in the table are exactly the keys derived from the current events, every
  stored key that no current event derives having been deleted. The code does not do
  this on a table of more than one page. \<^verbatim>\<open>getAllEvents\<close>, documented as retrieving all
  events, returns the first page of the table only, and a stored item beyond it is never
  compared with the current events. On the table of the items of 18:00 and of 19:00,
  whose first page holds the item of 18:00, a run with the event of 18:00 as the only
  current event succeeds, makes the \<^verbatim>\<open>Scan\<close> and no other call, reports no deletion
  and leaves the table as it was: the key of the item of 19:00, which no current event
  derives, is still stored.
\<close>

theorem processEvents_first_page_only:
  "processEvents 1741000000000000000 [elternabend18] twoPages
   = (Inr \<lparr>DeletedCount = 0, DeletedEvents = [], AddedCount = 0, AddedEvents = [],
           UpcomingEvents = [elternabend18]\<rparr>,
      \<lparr>table = [stored18, stored19], scanPage = 1, budget = None, fault = ''unavailable'',
        journal = [(Scan, True)]\<rparr>)
   \<and> {k. \<exists>e \<in> set [elternabend18]. eventKeyOf e = Some k} = {''20250310_0644d0d5''}
   \<and> keysOf (table (snd (processEvents 1741000000000000000 [elternabend18] twoPages)))
       = {''20250310_0644d0d5'', ''20250310_c8b4db77''}
   \<and> keysOf (table (snd (processEvents 1741000000000000000 [elternabend18] twoPages)))
       \<noteq> {k. \<exists>e \<in> set [elternabend18]. eventKeyOf e = Some k}"
proof -
  have cur: "{k. \<exists>e \<in> set [elternabend18]. eventKeyOf e = Some k} = {''20250310_0644d0d5''}"
    by (auto simp: key_elternabend18)
  have tab: "keysOf (table (snd (processEvents 1741000000000000000 [elternabend18] twoPages)))
       = {''20250310_0644d0d5'', ''20250310_c8b4db77''}"
    by (simp add: twoPages_run keysOf_def stored18_def stored19_def)
  have "''20250310_c8b4db77'' \<notin> {''20250310_0644d0d5''}" by simp
  then have "{''20250310_0644d0d5'', ''20250310_c8b4db77''} \<noteq> {''20250310_0644d0d5''}"
    by blast
  then show ?thesis unfolding cur tab by (simp add: twoPages_run)
qed

lemma one_row_per_key:
  "distinct (map EventKey rows) \<Longrightarrow> k \<in> keysOf rows \<Longrightarrow>
     length (filter (\<lambda>r. EventKey r = k) rows) = 1"
proof (induction rows)
  case Nil
  then show ?case by (simp add: keysOf_simps)
next
  case (Cons r rows)
  show ?case
  proof (cases "EventKey r = k")
    case True
    from Cons.prems(1) have "EventKey r \<notin> EventKey ` set rows" by simp
    with True have "\<forall>x \<in> set rows. EventKey x \<noteq> k" by blast
    then have "filter (\<lambda>r. EventKey r = k) rows = []"
      by (simp add: filter_empty_conv)
    with True show ?thesis by simp
  next
    case False
    with Cons show ?thesis by (simp add: keysOf_simps)
  qed
qed

lemma key_elternabend19: "eventKeyOf elternabend19 = Some ''20250310_c8b4db77''"
  by (simp add: eventKeyOf_def elternabend19_def generateEventKey_def
      checksum_Elternabend_19 Format_1741564800)

text \<open>
  C7. Two events of the current extraction with the same date and description derive
  the same key, and after a successful run the table (which has at most one item per
  key before the run) holds exactly one item with that key.
\<close>

theorem duplicates_collapse:
  assumes run: "processEvents now events c = (Inr report, c')"
    and tbl: "distinct (map EventKey (table c))"
    and ij: "i < j" "j < length events"
    and same: "Event.EventDate (events ! i) = Event.EventDate (events ! j)"
      "EventDescription (events ! i) = EventDescription (events ! j)"
  shows "eventKeyOf (events ! i) = eventKeyOf (events ! j)
    \<and> (\<exists>k. eventKeyOf (events ! i) = Some k
          \<and> length (filter (\<lambda>r. EventKey r = k) (table c')) = 1)"
proof -
  obtain k where k: "eventKeyOf (events ! i) = Some k" using eventKeyOf_Some by blast
  have eq: "eventKeyOf (events ! i) = eventKeyOf (events ! j)"
    using same by (simp add: eventKeyOf_def)
  have "events ! i \<in> set events" using ij by simp
  with k have "k \<in> currentKeys events" by (auto simp: currentKeys_def)
  then have "k \<in> keysOf (table c')"
    using processEvents_ok(1) [OF run] by simp
  then have "k \<in> set (map EventKey (table c'))"
    by (simp add: keysOf_def)
  moreover have "distinct (map EventKey (table c'))"
    using processEvents_ok(2) [OF run tbl] .
  ultimately have "length (filter (\<lambda>r. EventKey r = k) (table c')) = 1"
    by (simp add: one_row_per_key keysOf_def)
  with k eq show ?thesis by simp
qed

theorem duplicates_collapse_witness:
  "processEvents 1741000000000000000 [elternabend19, elternabend19]
     \<lparr>table = [stored18], scanPage = 100, budget = None, fault = ''unavailable'', journal = []\<rparr>
   = (Inr \<lparr>DeletedCount = 1, DeletedEvents = [elternabend18], AddedCount = 2,
           AddedEvents = [elternabend19, elternabend19],
           UpcomingEvents = [elternabend19, elternabend19]\<rparr>,
      \<lparr>table = [stored19], scanPage = 100, budget = None, fault = ''unavailable'',
        journal = [(Scan, True), (PutItem stored19, True), (PutItem stored19, True),
                   (DeleteItem ''20250310_0644d0d5'', True)]\<rparr>)
   \<and> distinct (map EventKey [stored18])
   \<and> (0::nat) < 1 \<and> (1::nat) < length [elternabend19, elternabend19]
   \<and> eventKeyOf ([elternabend19, elternabend19] ! 0) = Some ''20250310_c8b4db77''
   \<and> eventKeyOf ([elternabend19, elternabend19] ! 1) = Some ''20250310_c8b4db77''
   \<and> length (filter (\<lambda>r. EventKey r = ''20250310_c8b4db77'') [stored19]) = 1"
  using duplicates_collapse [OF scenario_run, of 0 1]
  by (simp add: scenario_run stored19_def key_elternabend19)

text \<open>
  C4. The upcoming window of \<^verbatim>\<open>processEvents\<close> is open at both ends: with
  \<open>cutoff = now.AddDate(0, 0, 60)\<close>, a current event is reported as upcoming exactly
  when its date is strictly after \<open>now\<close> and strictly before \<open>cutoff\<close>. An event dated
  \<open>now\<close> or \<open>cutoff\<close> is left out; an event one second after \<open>now\<close> or one second
  before \<open>cutoff\<close> is included.
\<close>

theorem upcoming_strict_bounds:
  assumes run: "processEvents now events c = (Inr report, c')"
    and e: "e \<in> set events"
  shows "(e \<in> set (UpcomingEvents report)
            \<longleftrightarrow> now < Event.EventDate e \<and> Event.EventDate e < AddDate now 60)
    \<and> AddDate now 60 = now + 60 * 86400 * nsPerSecond
    \<and> (Event.EventDate e = now \<longrightarrow> e \<notin> set (UpcomingEvents report))
    \<and> (Event.EventDate e = AddDate now 60 \<longrightarrow> e \<notin> set (UpcomingEvents report))
    \<and> (Event.EventDate e = now + nsPerSecond \<longrightarrow> e \<in> set (UpcomingEvents report))
    \<and> (Event.EventDate e = AddDate now 60 - nsPerSecond \<longrightarrow> e \<in> set (UpcomingEvents report))"
proof -
  have "e \<in> set (UpcomingEvents report)
          \<longleftrightarrow> now < Event.EventDate e \<and> Event.EventDate e < AddDate now 60"
    using processEvents_ok(3) [OF run] e by (auto simp: sortByDate_def After_def Before_def)
  then show ?thesis
    by (auto simp: AddDate_def nsPerDay_def nsPerSecond_def)
qed

lemma Format_window:
  "Format20060102 1741564801000000000 = ''20250310''"
  "Format20060102 1746748799000000000 = ''20250508''"
  "Format20060102 1746748800000000000 = ''20250509''"
  by code_simp+

lemma window_run:
  "processEvents 1741564800000000000
     [elternabendAt 1741564800000000000, elternabendAt 1741564801000000000,
      elternabendAt 1746748800000000000, elternabendAt 1746748799000000000]
     \<lparr>table = [], scanPage = 100, budget = None, fault = ''unavailable'', journal = []\<rparr>
   = (Inr \<lparr>DeletedCount = 0, DeletedEvents = [], AddedCount = 4,
           AddedEvents = [elternabendAt 1741564800000000000, elternabendAt 1741564801000000000,
                          elternabendAt 1746748800000000000, elternabendAt 1746748799000000000],
           UpcomingEvents = [elternabendAt 1741564801000000000, elternabendAt 1746748799000000000]\<rparr>,
      \<lparr>table = [storedAt ''20250310_0644d0d5'' 1741564801000000000,
                 storedAt ''20250509_0644d0d5'' 1746748800000000000,
                 storedAt ''20250508_0644d0d5'' 1746748799000000000],
        scanPage = 100, budget = None, fault = ''unavailable'',
        journal = [(Scan, True),
                   (PutItem (storedAt ''20250310_0644d0d5'' 1741564800000000000), True),
                   (PutItem (storedAt ''20250310_0644d0d5'' 1741564801000000000), True),
                   (PutItem (storedAt ''20250509_0644d0d5'' 1746748800000000000), True),
                   (PutItem (storedAt ''20250508_0644d0d5'' 1746748799000000000), True)]\<rparr>)"
  by (simp add: processEvents_def getAllEvents_def attempt_def buildExistingMap_def Let_def
      elternabendAt_def storedAt_def
      checksum_Elternabend_18 Format_1741564800 Format_window
      generateEventKey_def putEvent_def deleteEvent_def putRow_def deleteRow_def keysOf_def
      After_def Before_def AddDate_def nsPerDay_def nsPerSecond_def sortByDate_def)

lemma elternabendAt_simps:
  "Event.EventDate (elternabendAt t) = t" "(elternabendAt t = elternabendAt u) = (t = u)"
  by (simp_all add: elternabendAt_def)

theorem upcoming_strict_bounds_witness:
  "processEvents 1741564800000000000
     [elternabendAt 1741564800000000000, elternabendAt 1741564801000000000,
      elternabendAt 1746748800000000000, elternabendAt 1746748799000000000]
     \<lparr>table = [], scanPage = 100, budget = None, fault = ''unavailable'', journal = []\<rparr>
   = (Inr \<lparr>DeletedCount = 0, DeletedEvents = [], AddedCount = 4,
           AddedEvents = [elternabendAt 1741564800000000000, elternabendAt 1741564801000000000,
                          elternabendAt 1746748800000000000, elternabendAt 1746748799000000000],
           UpcomingEvents = [elternabendAt 1741564801000000000, elternabendAt 1746748799000000000]\<rparr>,
      \<lparr>table = [storedAt ''20250310_0644d0d5'' 1741564801000000000,
                 storedAt ''20250509_0644d0d5'' 1746748800000000000,
                 storedAt ''20250508_0644d0d5'' 1746748799000000000],
        scanPage = 100, budget = None, fault = ''unavailable'',
        journal = [(Scan, True),
                   (PutItem (storedAt ''20250310_0644d0d5'' 1741564800000000000), True),
                   (PutItem (storedAt ''20250310_0644d0d5'' 1741564801000000000), True),
                   (PutItem (storedAt ''20250509_0644d0d5'' 1746748800000000000), True),
                   (PutItem (storedAt ''20250508_0644d0d5'' 1746748799000000000), True)]\<rparr>)
   \<and> AddDate 1741564800000000000 60 = 1746748800000000000
   \<and> elternabendAt 1741564800000000000
        \<notin> set [elternabendAt 1741564801000000000, elternabendAt 1746748799000000000]
   \<and> elternabendAt 1746748800000000000
        \<notin> set [elternabendAt 1741564801000000000, elternabendAt 1746748799000000000]
   \<and> elternabendAt (1741564800000000000 + nsPerSecond)
        \<in> set [elternabendAt 1741564801000000000, elternabendAt 1746748799000000000]
   \<and> elternabendAt (1746748800000000000 - nsPerSecond)
        \<in> set [elternabendAt 1741564801000000000, elternabendAt 1746748799000000000]"
  using upcoming_strict_bounds [OF window_run, of "elternabendAt 1741564800000000000"]
    upcoming_strict_bounds [OF window_run, of "elternabendAt 1741564801000000000"]
    upcoming_strict_bounds [OF window_run, of "elternabendAt 1746748800000000000"]
    upcoming_strict_bounds [OF window_run, of "elternabendAt 1746748799000000000"]
  by (simp add: window_run elternabendAt_simps AddDate_def nsPerDay_def nsPerSecond_def)

section \<open>The text normalizer\<close>

lemma spaceTable_re: "spaceTable reSpaceEncodings"
  by (simp add: spaceTable_def reSpaceEncodings_def highByte_def contByte_def)

lemma spaceTable_is: "spaceTable isSpaceEncodings"
  by (simp add: spaceTable_def isSpaceEncodings_def highByte_def contByte_def)

lemma headWidth_0_iff:
  assumes "spaceTable encs"
  shows "headWidth encs s = 0 \<longleftrightarrow> \<not> (\<exists>p \<in> set encs. prefix p s)"
proof -
  have ne: "\<forall>p \<in> set encs. p \<noteq> []"
    using assms by (auto simp: spaceTable_def list_all_iff)
  show ?thesis
  proof (cases "find (\<lambda>p. prefix p s) encs")
    case None
    then have "\<not> (\<exists>p \<in> set encs. prefix p s)" by (auto simp: find_None_iff)
    with None show ?thesis by (simp add: headWidth_def)
  next
    case (Some p)
    then have "p \<in> set encs" "prefix p s"
      by (auto simp: find_Some_iff)
    with ne Some show ?thesis by (auto simp: headWidth_def)
  qed
qed

lemma lastWidth_0_iff:
  assumes "spaceTable encs"
  shows "lastWidth encs s = 0 \<longleftrightarrow> \<not> (\<exists>p \<in> set encs. suffix p s)"
proof -
  have ne: "\<forall>p \<in> set encs. p \<noteq> []"
    using assms by (auto simp: spaceTable_def list_all_iff)
  show ?thesis
  proof (cases "find (\<lambda>p. suffix p s) encs")
    case None
    then have "\<not> (\<exists>p \<in> set encs. suffix p s)" by (auto simp: find_None_iff)
    with None show ?thesis by (simp add: lastWidth_def)
  next
    case (Some p)
    then have "p \<in> set encs" "suffix p s"
      by (auto simp: find_Some_iff)
    with ne Some show ?thesis by (auto simp: lastWidth_def)
  qed
qed

lemma wellFormedEnc_cases:
  assumes "wellFormedEnc p"
  obtains a where "p = [a]" "\<not> highByte a"
  | h t where "p = h # t" "t \<noteq> []" "highByte h" "\<not> contByte h" "list_all contByte t"
  using assms by (cases p rule: wellFormedEnc.cases) auto

lemma contByte_highByte: "contByte b \<Longrightarrow> highByte b"
  by (simp add: contByte_def highByte_def)

lemma wellFormedEnc_hd: "wellFormedEnc p \<Longrightarrow> \<not> contByte (hd p)"
  by (erule wellFormedEnc_cases) (auto dest: contByte_highByte)

lemma wellFormedEnc_tl: "wellFormedEnc p \<Longrightarrow> list_all contByte (tl p)"
  by (erule wellFormedEnc_cases) auto

lemma space_not_high: "\<not> highByte CHR '' ''" "\<not> contByte CHR '' ''"
  by (simp_all add: highByte_def contByte_def)

lemma headWidth_space:
  assumes "spaceTable encs"
  shows "headWidth encs (CHR '' '' # cs) = 1"
proof -
  have "\<exists>p \<in> set encs. prefix p (CHR '' '' # cs)"
    using assms by (auto simp: spaceTable_def intro!: bexI [of _ "'' ''"])
  then have "headWidth encs (CHR '' '' # cs) \<noteq> 0"
    using headWidth_0_iff [OF assms] by blast
  then obtain p where p: "find (\<lambda>p. prefix p (CHR '' '' # cs)) encs = Some p"
    by (auto simp: headWidth_def split: option.splits)
  then have "p \<in> set encs" "prefix p (CHR '' '' # cs)"
    by (auto simp: find_Some_iff)
  then have "wellFormedEnc p" using assms by (auto simp: spaceTable_def list_all_iff)
  then have "length p = 1"
  proof (cases rule: wellFormedEnc_cases)
    case (1 a)
    then show ?thesis by simp
  next
    case (2 h t)
    with \<open>prefix p (CHR '' '' # cs)\<close> have "h = CHR '' ''" by simp
    with 2 space_not_high show ?thesis by simp
  qed
  with p show ?thesis by (simp add: headWidth_def)
qed

lemma headWidth_Cons_cong:
  assumes tab: "spaceTable encs"
    and keep: "\<And>t. list_all contByte t \<Longrightarrow> prefix t r = prefix t cs"
  shows "headWidth encs (c # r) = 0 \<longleftrightarrow> headWidth encs (c # cs) = 0"
proof -
  have "prefix p (c # r) = prefix p (c # cs)" if "p \<in> set encs" for p
  proof -
    from that tab have wf: "wellFormedEnc p" by (auto simp: spaceTable_def list_all_iff)
    then obtain h t where p: "p = h # t" by (cases p) auto
    with wf have "list_all contByte t" using wellFormedEnc_tl [of p] by simp
    with keep p show ?thesis by simp
  qed
  then show ?thesis
    unfolding headWidth_0_iff [OF tab] by blast
qed

lemma headWidth_nonzero_hd:
  assumes "spaceTable encs" "headWidth encs (c # cs) \<noteq> 0"
  shows "\<not> contByte c"
proof -
  have "\<exists>p \<in> set encs. prefix p (c # cs)"
    using assms(2) headWidth_0_iff [OF assms(1), of "c # cs"] by simp
  then obtain p where p: "p \<in> set encs" "prefix p (c # cs)" by blast
  with assms(1) have wf: "wellFormedEnc p" by (auto simp: spaceTable_def list_all_iff)
  then obtain h t where ht: "p = h # t" by (cases p) auto
  with p(2) have "hd p = c" by simp
  with wellFormedEnc_hd [OF wf] show ?thesis by simp
qed

lemma prefix_replaceRuns:
  "list_all contByte t \<Longrightarrow> prefix t (replaceRuns False s) = prefix t s"
proof (induction t arbitrary: s)
  case Nil
  then show ?case by simp
next
  case (Cons b t)
  then have b: "contByte b" and t: "list_all contByte t" by simp_all
  show ?case
  proof (cases s)
    case Nil
    then show ?thesis by (simp add: replaceRuns.simps)
  next
    case (Cons x xs)
    show ?thesis
    proof (cases "headWidth reSpaceEncodings (x # xs) = 0")
      case True
      with Cons Cons.IH [OF t, of xs] show ?thesis
        by (simp add: replaceRuns.simps)
    next
      case False
      then have "\<not> contByte x" using headWidth_nonzero_hd [OF spaceTable_re] by blast
      with b have "b \<noteq> x" by auto
      moreover from b have "b \<noteq> CHR '' ''" using space_not_high by auto
      ultimately show ?thesis using Cons False
        by (simp add: replaceRuns.simps Let_def)
    qed
  qed
qed

lemma replaceRuns_collapsed:
  "collapsed (replaceRuns inRun s) \<and> (inRun \<longrightarrow> headWidth reSpaceEncodings (replaceRuns inRun s) = 0)"
proof (induction inRun s rule: replaceRuns.induct)
  case (1 inRun)
  have "headWidth reSpaceEncodings [] = 0"
    using headWidth_0_iff [OF spaceTable_re, of "[]"] spaceTable_re
    by (auto simp: spaceTable_def list_all_iff)
  then show ?case by (simp add: replaceRuns.simps)
next
  case (2 inRun c cs)
  show ?case
  proof (cases "headWidth reSpaceEncodings (c # cs) = 0")
    case True
    have r: "replaceRuns inRun (c # cs) = c # replaceRuns False cs"
      using True by (simp add: replaceRuns.simps)
    have h: "headWidth reSpaceEncodings (c # replaceRuns False cs) = 0"
      using headWidth_Cons_cong [OF spaceTable_re, of "replaceRuns False cs" cs c]
        prefix_replaceRuns True by simp
    from "2.IH"(1) [OF refl True] have "collapsed (replaceRuns False cs)" by simp
    with h show ?thesis unfolding r by simp
  next
    case False
    let ?rest = "replaceRuns True (drop (headWidth reSpaceEncodings (c # cs)) (c # cs))"
    from "2.IH"(2) [OF refl False] have ih: "collapsed ?rest" "headWidth reSpaceEncodings ?rest = 0"
      by simp_all
    show ?thesis
    proof (cases inRun)
      case True
      with False have r: "replaceRuns inRun (c # cs) = ?rest" by (simp add: replaceRuns.simps Let_def)
      from ih show ?thesis unfolding r by simp
    next
      case notRun: False
      with False have r: "replaceRuns inRun (c # cs) = CHR '' '' # ?rest"
        by (simp add: replaceRuns.simps Let_def)
      from ih notRun show ?thesis unfolding r by (simp add: headWidth_space [OF spaceTable_re])
    qed
  qed
qed

lemma collapsed_replaceRuns:
  "collapsed s \<Longrightarrow>
     replaceRuns False s = s \<and> (headWidth reSpaceEncodings s = 0 \<longrightarrow> replaceRuns True s = s)"
proof (induction s)
  case Nil
  then show ?case by (simp add: replaceRuns.simps)
next
  case (Cons c cs)
  show ?case
  proof (cases "headWidth reSpaceEncodings (c # cs) = 0")
    case True
    with Cons show ?thesis by (simp add: replaceRuns.simps)
  next
    case False
    with Cons.prems have c: "c = CHR '' ''" "headWidth reSpaceEncodings cs = 0" "collapsed cs"
      by simp_all
    with Cons.IH have "replaceRuns True cs = cs" by simp
    with c False show ?thesis
      by (simp add: replaceRuns.simps headWidth_space [OF spaceTable_re])
  qed
qed

lemma ReplaceAllString_idem: "ReplaceAllString (ReplaceAllString s) = ReplaceAllString s"
  using collapsed_replaceRuns [of "replaceRuns False s"] replaceRuns_collapsed [of False s]
  by (simp add: ReplaceAllString_def)

lemma collapsed_tl: "collapsed (c # cs) \<Longrightarrow> collapsed cs"
  by (simp split: if_splits)

lemma collapsed_drop: "collapsed s \<Longrightarrow> collapsed (drop n s)"
proof (induction n arbitrary: s)
  case 0
  then show ?case by simp
next
  case (Suc n)
  show ?case
  proof (cases s)
    case Nil
    then show ?thesis by simp
  next
    case (Cons c cs)
    with Suc.prems have "collapsed cs" using collapsed_tl by blast
    with Suc.IH Cons show ?thesis by simp
  qed
qed

lemma headWidth_append_0:
  "spaceTable encs \<Longrightarrow> headWidth encs (xs @ ys) = 0 \<Longrightarrow> headWidth encs xs = 0"
  by (auto simp: headWidth_0_iff)

lemma collapsed_append: "collapsed (xs @ ys) \<Longrightarrow> collapsed xs"
proof (induction xs)
  case Nil
  then show ?case by simp
next
  case (Cons c xs)
  show ?case
  proof (cases "headWidth reSpaceEncodings (c # xs @ ys) = 0")
    case True
    with Cons have "collapsed xs" by simp
    moreover from True have "headWidth reSpaceEncodings (c # xs) = 0"
      using headWidth_append_0 [OF spaceTable_re, of "c # xs" ys] by simp
    ultimately show ?thesis by simp
  next
    case False
    with Cons.prems have c: "c = CHR '' ''" "headWidth reSpaceEncodings (xs @ ys) = 0"
      "collapsed (xs @ ys)" by simp_all
    from c(2) have "headWidth reSpaceEncodings xs = 0"
      using headWidth_append_0 [OF spaceTable_re] by blast
    with c Cons.IH show ?thesis by (simp add: headWidth_space [OF spaceTable_re])
  qed
qed

lemma collapsed_take: "collapsed s \<Longrightarrow> collapsed (take n s)"
  using collapsed_append [of "take n s" "drop n s"] by simp

lemma headWidth_Nil: "spaceTable encs \<Longrightarrow> headWidth encs [] = 0"
  by (auto simp: headWidth_0_iff spaceTable_def list_all_iff)

lemma lastWidth_Nil: "spaceTable encs \<Longrightarrow> lastWidth encs [] = 0"
  by (auto simp: lastWidth_0_iff spaceTable_def list_all_iff)

lemma TrimLeftSpace_drop: "\<exists>n. TrimLeftSpace s = drop n s"
proof (induction s rule: TrimLeftSpace.induct)
  case 1
  show ?case by (simp add: TrimLeftSpace.simps)
next
  case (2 c cs)
  show ?case
  proof (cases "headWidth isSpaceEncodings (c # cs) = 0")
    case True
    then have "TrimLeftSpace (c # cs) = drop 0 (c # cs)" by (simp add: TrimLeftSpace.simps)
    then show ?thesis by blast
  next
    case False
    from "2" [OF refl False] obtain n where
      "TrimLeftSpace (drop (headWidth isSpaceEncodings (c # cs)) (c # cs))
        = drop n (drop (headWidth isSpaceEncodings (c # cs)) (c # cs))" by blast
    with False have "TrimLeftSpace (c # cs) = drop (n + headWidth isSpaceEncodings (c # cs)) (c # cs)"
      by (simp add: TrimLeftSpace.simps Let_def add.commute)
    then show ?thesis by blast
  qed
qed

lemma TrimLeftSpace_head: "headWidth isSpaceEncodings (TrimLeftSpace s) = 0"
proof (induction s rule: TrimLeftSpace.induct)
  case 1
  show ?case by (simp add: TrimLeftSpace.simps headWidth_Nil [OF spaceTable_is])
next
  case (2 c cs)
  then show ?case
    by (cases "headWidth isSpaceEncodings (c # cs) = 0") (simp_all add: TrimLeftSpace.simps Let_def)
qed

lemma TrimRightSpace_take: "\<exists>n. TrimRightSpace s = take n s"
proof (induction s rule: TrimRightSpace.induct)
  case 1
  show ?case by (simp add: TrimRightSpace.simps)
next
  case (2 c cs)
  show ?case
  proof (cases "lastWidth isSpaceEncodings (c # cs) = 0")
    case True
    then have "TrimRightSpace (c # cs) = take (length (c # cs)) (c # cs)"
      by (simp add: TrimRightSpace.simps)
    then show ?thesis by blast
  next
    case False
    let ?k = "length (c # cs) - lastWidth isSpaceEncodings (c # cs)"
    from "2" [OF refl False] obtain n where
      "TrimRightSpace (take ?k (c # cs)) = take n (take ?k (c # cs))" by blast
    with False have "TrimRightSpace (c # cs) = take (min n ?k) (c # cs)"
      by (simp add: TrimRightSpace.simps Let_def)
    then show ?thesis by blast
  qed
qed

lemma TrimRightSpace_last: "lastWidth isSpaceEncodings (TrimRightSpace s) = 0"
proof (induction s rule: TrimRightSpace.induct)
  case 1
  show ?case by (simp add: TrimRightSpace.simps lastWidth_Nil [OF spaceTable_is])
next
  case (2 c cs)
  then show ?case
    by (cases "lastWidth isSpaceEncodings (c # cs) = 0") (simp_all add: TrimRightSpace.simps Let_def)
qed

lemma headWidth_take_0:
  assumes "spaceTable encs" "headWidth encs s = 0"
  shows "headWidth encs (take n s) = 0"
  using headWidth_append_0 [OF assms(1), of "take n s" "drop n s"] assms(2) by simp

lemma TrimSpace_shape:
  "headWidth isSpaceEncodings (TrimSpace s) = 0"
  "lastWidth isSpaceEncodings (TrimSpace s) = 0"
  "collapsed s \<Longrightarrow> collapsed (TrimSpace s)"
proof -
  obtain n where n: "TrimRightSpace (TrimLeftSpace s) = take n (TrimLeftSpace s)"
    using TrimRightSpace_take by blast
  obtain m where m: "TrimLeftSpace s = drop m s" using TrimLeftSpace_drop by blast
  show "headWidth isSpaceEncodings (TrimSpace s) = 0"
    using headWidth_take_0 [OF spaceTable_is TrimLeftSpace_head, of n s] n
    by (simp add: TrimSpace_def)
  show "lastWidth isSpaceEncodings (TrimSpace s) = 0"
    by (simp add: TrimSpace_def TrimRightSpace_last)
  show "collapsed (TrimSpace s)" if "collapsed s"
  proof -
    from that have "collapsed (take n (drop m s))" by (simp add: collapsed_take collapsed_drop)
    with n m show ?thesis by (simp add: TrimSpace_def)
  qed
qed

lemma TrimSpace_fixed:
  assumes "headWidth isSpaceEncodings s = 0" "lastWidth isSpaceEncodings s = 0"
  shows "TrimSpace s = s"
proof -
  have "TrimLeftSpace s = s" using assms(1) by (cases s) (simp_all add: TrimLeftSpace.simps)
  moreover have "TrimRightSpace s = s" using assms(2) by (cases s) (simp_all add: TrimRightSpace.simps)
  ultimately show ?thesis by (simp add: TrimSpace_def)
qed

lemma ReplaceAll_match:
  "prefix spacedEnDash s \<Longrightarrow>
     s = spacedEnDash @ drop 5 s
     \<and> ReplaceAll s spacedEnDash spacedHyphen
         = spacedHyphen @ ReplaceAll (drop 5 s) spacedEnDash spacedHyphen"
  by (cases s) (auto simp: spacedEnDash_def prefix_def)

lemma ReplaceAll_skip:
  "\<not> prefix spacedEnDash (c # cs) \<Longrightarrow>
     ReplaceAll (c # cs) spacedEnDash spacedHyphen = c # ReplaceAll cs spacedEnDash spacedHyphen"
  by simp

lemma dash_induct [case_names Nil Match Skip]:
  assumes "P []"
    and "\<And>s. prefix spacedEnDash s \<Longrightarrow> P (drop 5 s) \<Longrightarrow> P s"
    and "\<And>c cs. \<not> prefix spacedEnDash (c # cs) \<Longrightarrow> P cs \<Longrightarrow> P (c # cs)"
  shows "P s"
proof (induction s rule: length_induct)
  case (1 s)
  show ?case
  proof (cases s)
    case Nil
    with assms(1) show ?thesis by simp
  next
    case (Cons c cs)
    show ?thesis
    proof (cases "prefix spacedEnDash s")
      case True
      have "length (drop 5 s) < length s" using Cons by simp
      with "1" have "P (drop 5 s)" by blast
      with True assms(2) show ?thesis by blast
    next
      case False
      have "length cs < length s" using Cons by simp
      with "1" have "P cs" by blast
      with False Cons assms(3) show ?thesis by blast
    qed
  qed
qed

lemma prefix_ReplaceAll:
  "list_all contByte t \<Longrightarrow> prefix t (ReplaceAll s spacedEnDash spacedHyphen) = prefix t s"
proof (induction t arbitrary: s)
  case Nil
  then show ?case by simp
next
  case (Cons b t)
  then have b: "contByte b" and t: "list_all contByte t" by simp_all
  from b have nsp: "b \<noteq> CHR '' ''" using space_not_high by auto
  show ?case
  proof (cases s)
    case Nil
    then show ?thesis by simp
  next
    case (Cons x xs)
    show ?thesis
    proof (cases "prefix spacedEnDash s")
      case True
      from ReplaceAll_match [OF True] obtain r where
        "s = CHR '' '' # r" "\<exists>r'. ReplaceAll s spacedEnDash spacedHyphen = CHR '' '' # r'"
        by (auto simp: spacedEnDash_def spacedHyphen_def)
      with nsp show ?thesis by auto
    next
      case False
      with Cons Cons.IH [OF t, of xs] show ?thesis by simp
    qed
  qed
qed

lemma headWidth_ReplaceAll:
  assumes tab: "spaceTable encs"
  shows "headWidth encs (ReplaceAll s spacedEnDash spacedHyphen) = 0 \<longleftrightarrow> headWidth encs s = 0"
proof (cases s)
  case Nil
  then show ?thesis by simp
next
  case (Cons c cs)
  show ?thesis
  proof (cases "prefix spacedEnDash s")
    case True
    from ReplaceAll_match [OF True] obtain r r' where
      "s = CHR '' '' # r" "ReplaceAll s spacedEnDash spacedHyphen = CHR '' '' # r'"
      by (auto simp: spacedEnDash_def spacedHyphen_def)
    then show ?thesis by (simp add: headWidth_space [OF tab])
  next
    case False
    with Cons have "ReplaceAll s spacedEnDash spacedHyphen = c # ReplaceAll cs spacedEnDash spacedHyphen"
      by simp
    with Cons show ?thesis
      using headWidth_Cons_cong [OF tab, of "ReplaceAll cs spacedEnDash spacedHyphen" cs c]
        prefix_ReplaceAll by simp
  qed
qed

lemma headWidth_hyphen: "headWidth reSpaceEncodings (CHR ''-'' # s) = 0"
proof -
  have "\<not> (\<exists>p \<in> set reSpaceEncodings. prefix p (CHR ''-'' # s))"
    by (simp add: reSpaceEncodings_def)
  then show ?thesis using headWidth_0_iff [OF spaceTable_re] by blast
qed

lemma collapsed_ReplaceAll:
  "collapsed s \<Longrightarrow> collapsed (ReplaceAll s spacedEnDash spacedHyphen)"
proof (induction s rule: dash_induct)
  case Nil
  then show ?case by simp
next
  case (Match s)
  let ?R = "ReplaceAll (drop 5 s) spacedEnDash spacedHyphen"
  from ReplaceAll_match [OF Match.hyps] have s: "s = spacedEnDash @ drop 5 s"
    and r: "ReplaceAll s spacedEnDash spacedHyphen = spacedHyphen @ ?R" by simp_all
  have "collapsed (drop 4 s)" using Match.prems by (rule collapsed_drop)
  moreover have "drop 4 s = CHR '' '' # drop 5 s"
    by (subst s) (simp add: spacedEnDash_def)
  ultimately have rest: "headWidth reSpaceEncodings (drop 5 s) = 0" "collapsed (drop 5 s)"
    by (simp_all add: headWidth_space [OF spaceTable_re])
  from rest(2) Match.IH have "collapsed ?R" by simp
  moreover from rest(1) have "headWidth reSpaceEncodings ?R = 0"
    by (simp add: headWidth_ReplaceAll [OF spaceTable_re])
  ultimately show ?case
    unfolding r by (simp add: spacedHyphen_def headWidth_space [OF spaceTable_re] headWidth_hyphen)
next
  case (Skip c cs)
  let ?R = "ReplaceAll cs spacedEnDash spacedHyphen"
  have r: "ReplaceAll (c # cs) spacedEnDash spacedHyphen = c # ?R"
    using Skip.hyps by simp
  have cong: "headWidth reSpaceEncodings (c # ?R) = 0 \<longleftrightarrow> headWidth reSpaceEncodings (c # cs) = 0"
    using headWidth_Cons_cong [OF spaceTable_re, of ?R cs c] prefix_ReplaceAll by simp
  from Skip.prems have "collapsed cs" by (rule collapsed_tl)
  with Skip.IH have R: "collapsed ?R" by simp
  show ?case
  proof (cases "headWidth reSpaceEncodings (c # cs) = 0")
    case True
    with cong R show ?thesis unfolding r by simp
  next
    case False
    with Skip.prems have "c = CHR '' ''" "headWidth reSpaceEncodings cs = 0" by simp_all
    with R show ?thesis
      unfolding r
      by (simp add: headWidth_space [OF spaceTable_re] headWidth_ReplaceAll [OF spaceTable_re])
  qed
qed

lemma ReplaceAll_absent:
  "\<not> Contains s spacedEnDash \<Longrightarrow> ReplaceAll s spacedEnDash spacedHyphen = s"
  by (induction s) auto

lemma ReplaceAll_Nil_iff: "ReplaceAll s spacedEnDash spacedHyphen = [] \<longleftrightarrow> s = []"
  by (cases s) (auto simp: spacedHyphen_def)

lemma last_ReplaceAll:
  "s \<noteq> [] \<Longrightarrow> last (ReplaceAll s spacedEnDash spacedHyphen) = last s"
proof (induction s rule: dash_induct)
  case Nil
  then show ?case by simp
next
  case (Match s)
  let ?R = "ReplaceAll (drop 5 s) spacedEnDash spacedHyphen"
  from ReplaceAll_match [OF Match.hyps] have s: "s = spacedEnDash @ drop 5 s"
    and r: "ReplaceAll s spacedEnDash spacedHyphen = spacedHyphen @ ?R" by simp_all
  show ?case
  proof (cases "drop 5 s = []")
    case True
    then have "last s = CHR '' ''" by (subst s) (simp add: spacedEnDash_def)
    with True show ?thesis unfolding r by (simp add: spacedHyphen_def)
  next
    case False
    then have "?R \<noteq> []" by (simp add: ReplaceAll_Nil_iff)
    then have "last (spacedHyphen @ ?R) = last ?R" by simp
    also have "\<dots> = last (drop 5 s)" using Match.IH False by simp
    also have "\<dots> = last s" using False by (subst (2) s) simp
    finally show ?thesis unfolding r .
  qed
next
  case (Skip c cs)
  then show ?case by (cases "cs = []") (simp_all add: ReplaceAll_Nil_iff)
qed

lemma high_no_dash: "list_all highByte s \<Longrightarrow> \<not> prefix spacedEnDash s"
  using space_not_high by (cases s) (auto simp: spacedEnDash_def)

lemma ReplaceAll_high:
  "list_all highByte s \<Longrightarrow> ReplaceAll s spacedEnDash spacedHyphen = s"
proof (induction s)
  case Nil
  then show ?case by simp
next
  case (Cons c cs)
  then show ?case using high_no_dash [of "c # cs"] by simp
qed

lemma list_all_high_ReplaceAll:
  "list_all highByte (ReplaceAll s spacedEnDash spacedHyphen) = list_all highByte s"
proof (induction s rule: dash_induct)
  case Nil
  then show ?case by simp
next
  case (Match s)
  from ReplaceAll_match [OF Match.hyps] obtain r r' where
    "s = CHR '' '' # r" "ReplaceAll s spacedEnDash spacedHyphen = CHR '' '' # r'"
    by (auto simp: spacedEnDash_def spacedHyphen_def)
  then show ?case using space_not_high by simp
next
  case (Skip c cs)
  then show ?case by simp
qed

lemma takeWhile_rev_append:
  "takeWhile P (rev (xs @ ys)) = (if list_all P ys then rev ys @ takeWhile P (rev xs)
                                  else takeWhile P (rev ys))"
proof (cases "list_all P ys")
  case True
  then have "\<forall>x \<in> set (rev ys). P x" by (simp add: list_all_iff)
  from takeWhile_append2 [of "rev ys" P "rev xs"] this True show ?thesis by simp
next
  case False
  then obtain x where "x \<in> set (rev ys)" "\<not> P x" by (auto simp: list_all_iff)
  then have "takeWhile P (rev ys @ rev xs) = takeWhile P (rev ys)"
    by (rule takeWhile_append1)
  with False show ?thesis by simp
qed

lemma trailing_high_ReplaceAll:
  "takeWhile highByte (rev (ReplaceAll s spacedEnDash spacedHyphen)) = takeWhile highByte (rev s)"
proof (induction s rule: dash_induct)
  case Nil
  then show ?case by simp
next
  case (Match s)
  let ?R = "ReplaceAll (drop 5 s) spacedEnDash spacedHyphen"
  from ReplaceAll_match [OF Match.hyps] have s: "s = spacedEnDash @ drop 5 s"
    and r: "ReplaceAll s spacedEnDash spacedHyphen = spacedHyphen @ ?R" by simp_all
  have a: "takeWhile highByte (rev spacedEnDash) = []" "takeWhile highByte (rev spacedHyphen) = []"
    using space_not_high by (simp_all add: spacedEnDash_def spacedHyphen_def)
  have "takeWhile highByte (rev (spacedHyphen @ ?R))
          = (if list_all highByte ?R then rev ?R else takeWhile highByte (rev ?R))"
    by (simp only: takeWhile_rev_append a append_Nil2)
  also have "\<dots> = (if list_all highByte (drop 5 s) then rev (drop 5 s)
                      else takeWhile highByte (rev (drop 5 s)))"
    using Match.IH by (simp add: list_all_high_ReplaceAll ReplaceAll_high)
  also have "\<dots> = takeWhile highByte (rev (spacedEnDash @ drop 5 s))"
    by (simp only: takeWhile_rev_append a append_Nil2)
  finally show ?case unfolding r using s by simp
next
  case (Skip c cs)
  let ?R = "ReplaceAll cs spacedEnDash spacedHyphen"
  have r: "ReplaceAll (c # cs) spacedEnDash spacedHyphen = [c] @ ?R"
    using Skip.hyps by simp
  have "takeWhile highByte (rev ([c] @ ?R))
          = (if list_all highByte ?R then rev ?R @ takeWhile highByte (rev [c])
             else takeWhile highByte (rev ?R))"
    by (simp only: takeWhile_rev_append)
  also have "\<dots> = (if list_all highByte cs then rev cs @ takeWhile highByte (rev [c])
                      else takeWhile highByte (rev cs))"
    using Skip.IH by (simp add: list_all_high_ReplaceAll ReplaceAll_high)
  also have "\<dots> = takeWhile highByte (rev ([c] @ cs))"
    by (simp only: takeWhile_rev_append)
  finally show ?case unfolding r by simp
qed

lemma prefix_takeWhile:
  "list_all P q \<Longrightarrow> prefix q (takeWhile P ys) = prefix q ys"
proof (induction q arbitrary: ys)
  case Nil
  then show ?case by simp
next
  case (Cons a q)
  then show ?case by (cases ys) auto
qed

lemma suffix_high:
  assumes "list_all highByte p"
  shows "suffix p s \<longleftrightarrow> prefix (rev p) (takeWhile highByte (rev s))"
proof -
  have "list_all highByte (rev p)" using assms by (simp add: list_all_iff)
  then show ?thesis by (simp add: prefix_takeWhile suffix_to_prefix)
qed

lemma suffix_single: "suffix [a] s \<longleftrightarrow> s \<noteq> [] \<and> last s = a"
  by (cases s rule: rev_cases) (auto simp: suffix_def)

lemma suffix_enc_ReplaceAll:
  assumes "wellFormedEnc p"
  shows "suffix p (ReplaceAll s spacedEnDash spacedHyphen) \<longleftrightarrow> suffix p s"
  using assms
proof (cases rule: wellFormedEnc_cases)
  case (1 a)
  then show ?thesis
    using last_ReplaceAll [of s] by (auto simp: suffix_single ReplaceAll_Nil_iff)
next
  case (2 h t)
  then have "list_all highByte p"
    by (auto simp: list_all_iff dest: contByte_highByte)
  then show ?thesis by (simp add: suffix_high trailing_high_ReplaceAll)
qed

lemma lastWidth_ReplaceAll:
  assumes tab: "spaceTable encs"
  shows "lastWidth encs (ReplaceAll s spacedEnDash spacedHyphen) = 0 \<longleftrightarrow> lastWidth encs s = 0"
proof -
  have "suffix p (ReplaceAll s spacedEnDash spacedHyphen) = suffix p s" if "p \<in> set encs" for p
    using that tab suffix_enc_ReplaceAll by (auto simp: spaceTable_def list_all_iff)
  then show ?thesis unfolding lastWidth_0_iff [OF tab] by blast
qed

lemma cleanText_shape:
  "collapsed (cleanText s)"
  "headWidth isSpaceEncodings (cleanText s) = 0"
  "lastWidth isSpaceEncodings (cleanText s) = 0"
proof -
  have "collapsed (ReplaceAllString s)"
    using replaceRuns_collapsed [of False s] by (simp add: ReplaceAllString_def)
  then show "collapsed (cleanText s)"
    by (simp add: cleanText_def collapsed_ReplaceAll TrimSpace_shape)
  show "headWidth isSpaceEncodings (cleanText s) = 0"
    by (simp add: cleanText_def headWidth_ReplaceAll [OF spaceTable_is] TrimSpace_shape)
  show "lastWidth isSpaceEncodings (cleanText s) = 0"
    by (simp add: cleanText_def lastWidth_ReplaceAll [OF spaceTable_is] TrimSpace_shape)
qed

lemma cleanText_steps_fixed:
  "ReplaceAllString (cleanText s) = cleanText s" "TrimSpace (cleanText s) = cleanText s"
proof -
  show "ReplaceAllString (cleanText s) = cleanText s"
    using collapsed_replaceRuns [OF cleanText_shape(1), of s] by (simp add: ReplaceAllString_def)
  show "TrimSpace (cleanText s) = cleanText s"
    using cleanText_shape(2,3) by (rule TrimSpace_fixed)
qed

lemma cleanText_doubleDash:
  "cleanText doubleDash = ''a - '' @ [CHR 0xE2, CHR 0x80, CHR 0x93] @ '' b''"
  "cleanText (cleanText doubleDash) = ''a - - b''"
  by code_simp+

lemma cleanText_mixedText: "cleanText mixedText = ''Elternabend 18:00 - 19:00 Uhr''"
  by code_simp

text \<open>
  The second normalization differs from the first only through the spaced en dashes the
  first has left: a normalized text without one is normalized to itself.
\<close>

lemma cleanText_fixed_without_spaced_en_dash:
  assumes "\<not> Contains (cleanText s) spacedEnDash"
  shows "cleanText (cleanText s) = cleanText s"
proof -
  have "cleanText (cleanText s) = ReplaceAll (cleanText s) spacedEnDash spacedHyphen"
    by (simp add: cleanText_def [of "cleanText s"] cleanText_steps_fixed)
  then show ?thesis using assms by (simp add: ReplaceAll_absent)
qed

text \<open>
  C3. The claim: \<^verbatim>\<open>cleanText\<close> is idempotent on every string. The code, whose comment
  says that it replaces the en dash between two spaces by a hyphen between two spaces,
  misses an occurrence: \<^verbatim>\<open>strings.ReplaceAll\<close> replaces occurrences that do not overlap,
  and of two en dashes that share the space between them the second is left in place. On
  the text of the letter a, two such en dashes and the letter b the normalized text still
  has a spaced en dash, and a second normalization replaces it: the two results differ.
\<close>

theorem cleanText_overlapping_dashes:
  "cleanText doubleDash = ''a - '' @ [CHR 0xE2, CHR 0x80, CHR 0x93] @ '' b''
   \<and> Contains (cleanText doubleDash) spacedEnDash
   \<and> cleanText (cleanText doubleDash) = ''a - - b''
   \<and> cleanText (cleanText doubleDash) \<noteq> cleanText doubleDash"
proof -
  have one: "cleanText doubleDash = ''a - '' @ [CHR 0xE2, CHR 0x80, CHR 0x93] @ '' b''"
    and two: "cleanText (cleanText doubleDash) = ''a - - b''"
    by (rule cleanText_doubleDash)+
  have "Contains (''a - '' @ [CHR 0xE2, CHR 0x80, CHR 0x93] @ '' b'') spacedEnDash"
    by (simp add: spacedEnDash_def)
  then have three: "Contains (cleanText doubleDash) spacedEnDash"
    by (simp only: one)
  have four: "cleanText (cleanText doubleDash) \<noteq> cleanText doubleDash"
    by (subst two, subst one) simp
  from one two three four show ?thesis by (intro conjI)
qed

section \<open>The extractor\<close>

lemma attributeLoop_result:
  "attributeLoop n attrs (h, a, d) =
     (h \<or> (\<exists>x \<in> set attrs. Key x = ''class'' \<and> Val x = ''events''),
      (case filter (\<lambda>x. Key x = ''aria-labelledby'') attrs of [] \<Rightarrow> a | y # ys \<Rightarrow> Val (last (y # ys))),
      (if \<exists>x \<in> set attrs. Key x = ''class'' \<and> Val x = ''events''
       then cleanText (getTextContent n) else d))"
proof (induction attrs arbitrary: h a d)
  case Nil
  then show ?case by simp
next
  case (Cons x xs)
  show ?case
    by (cases "filter (\<lambda>x. Key x = ''aria-labelledby'') xs") (auto simp: Cons.IH Let_def)
qed

lemma Split_no_separator: "d \<notin> set s \<Longrightarrow> Split s [d] = [s]"
  by (induction s) auto

lemma Split_last_separator:
  "d \<notin> set ys \<Longrightarrow> length (Split (xs @ d # ys) [d]) > 1 \<and> last (Split (xs @ d # ys) [d]) = ys"
proof (induction xs)
  case Nil
  then show ?case by (simp add: Split_no_separator)
next
  case (Cons x xs)
  then have ih: "length (Split (xs @ d # ys) [d]) > 1" "last (Split (xs @ d # ys) [d]) = ys"
    by simp_all
  then obtain p q ps where ps: "Split (xs @ d # ys) [d] = p # q # ps"
    by (cases "Split (xs @ d # ys) [d]" rule: remdups_adj.cases) auto
  with ih show ?case by auto
qed

lemma Split_dash:
  "(length (Split s ''-'') > 1 \<longleftrightarrow> CHR ''-'' \<in> set s)
   \<and> (CHR ''-'' \<in> set s \<longrightarrow>
        Split s ''-'' ! (length (Split s ''-'') - 1) = rev (takeWhile (\<lambda>c. c \<noteq> CHR ''-'') (rev s)))"
proof (cases "CHR ''-'' \<in> set s")
  case False
  then show ?thesis by (simp add: Split_no_separator)
next
  case True
  then obtain xs ys where s: "s = xs @ CHR ''-'' # ys" "CHR ''-'' \<notin> set ys"
    using split_list_last [of "CHR ''-''" s] by blast
  from Split_last_separator [OF s(2), of xs]
  have l: "length (Split s ''-'') > 1" "last (Split s ''-'') = ys"
    by (simp_all add: s(1))
  then have ne: "Split s ''-'' \<noteq> []" by auto
  have "takeWhile (\<lambda>c. c \<noteq> CHR ''-'') (rev ys @ CHR ''-'' # rev xs) = rev ys"
    using s(2) by (auto simp: takeWhile_tail)
  then have "rev (takeWhile (\<lambda>c. c \<noteq> CHR ''-'') (rev s)) = ys"
    by (simp add: s(1))
  with l True show ?thesis by (simp add: last_conv_nth [OF ne])
qed

lemma visit_container:
  "visit n events = (if isEventContainer n then events @ [eventOfContainer n] else events)"
proof -
  have aria: "(case filter (\<lambda>x. Key x = ''aria-labelledby'') (Attr n) of [] \<Rightarrow> []
               | y # ys \<Rightarrow> Val (last (y # ys))) = ariaLabelledby n"
    by (simp add: ariaLabelledby_def)
  have empty: "ariaLabelledby n = [] \<Longrightarrow> CHR ''-'' \<notin> set (ariaLabelledby n)"
    by simp
  show ?thesis
    using Split_dash [of "ariaLabelledby n"] empty
    by (auto simp: visit_def attributeLoop_result aria isEventContainer_def eventOfContainer_def
        dateSuffix_def Let_def)
qed

lemma fold_traverse:
  assumes "\<And>c events. c \<in> set cs \<Longrightarrow>
     traverse c events = events @ map eventOfContainer (filter isEventContainer (nodes c))"
  shows "fold traverse cs events
    = events @ map eventOfContainer (filter isEventContainer (concat (map nodes cs)))"
  using assms by (induction cs arbitrary: events) simp_all

lemma traverse_containers:
  "traverse doc events = events @ map eventOfContainer (filter isEventContainer (nodes doc))"
proof (induction doc arbitrary: events)
  case (Node ty data attr children)
  have "fold traverse children (visit (Node ty data attr children) events)
    = visit (Node ty data attr children) events
      @ map eventOfContainer (filter isEventContainer (concat (map nodes children)))"
    using Node.IH by (rule fold_traverse)
  then show ?case by (simp add: visit_container)
qed

text \<open>
  C5. A node is treated as an event container by \<^verbatim>\<open>extractEvents\<close> exactly when it is
  an element with an attribute \<^verbatim>\<open>class="events"\<close> and its attribute
  \<^verbatim>\<open>aria-labelledby\<close> (the last one, should it carry several) has a value that contains
  a dash and whose last dash-delimited segment has 8 bytes and parses as a date in the
  layout YYYYMMDD. The events returned are those of the containers, in document order;
  every other node is passed over, and no node makes the extraction fail.
\<close>

theorem extractEvents_containers:
  "(visit n events \<noteq> events \<longleftrightarrow> isEventContainer n)
   \<and> visit n events = (if isEventContainer n then events @ [eventOfContainer n] else events)
   \<and> (html_Parse body = Inr doc \<longrightarrow>
        extractEvents html_Parse body
          = Inr (map eventOfContainer (filter isEventContainer (nodes doc))))"
  by (simp add: visit_container extractEvents_def traverse_containers)

lemma Parse_20250310: "Parse20060102 ''20250310'' = Some 1741564800000000000"
  by code_simp

lemma Parse_20250230: "Parse20060102 ''20250230'' = None"
  by code_simp

lemma elternabendContainer_event:
  "isEventContainer elternabendContainer"
  "eventOfContainer elternabendContainer
     = \<lparr>Event.EventDate = 1741564800000000000, EventDescription = ''Elternabend 18:00Uhr''\<rparr>"
proof -
  have d: "dateSuffix elternabendContainer = ''20250310''"
    by (simp add: dateSuffix_def ariaLabelledby_def elternabendContainer_def element_def)
  have "cleanText (getTextContent elternabendContainer) = ''Elternabend 18:00Uhr''"
    by code_simp
  then show "eventOfContainer elternabendContainer
     = \<lparr>Event.EventDate = 1741564800000000000, EventDescription = ''Elternabend 18:00Uhr''\<rparr>"
    by (simp add: eventOfContainer_def d Parse_20250310)
  show "isEventContainer elternabendContainer"
    unfolding isEventContainer_def d
    by (simp add: Parse_20250310 ariaLabelledby_def elternabendContainer_def element_def)
qed

lemma calendarPage_containers:
  "filter isEventContainer (nodes calendarPage) = [elternabendContainer]"
  by code_simp

theorem extractEvents_containers_witness:
  "extractEvents (\<lambda>body. Inr calendarPage) ''<html>''
     = Inr [\<lparr>Event.EventDate = 1741564800000000000, EventDescription = ''Elternabend 18:00Uhr''\<rparr>]
   \<and> filter isEventContainer (nodes calendarPage) = [elternabendContainer]
   \<and> isEventContainer elternabendContainer
   \<and> visit elternabendContainer []
     = [\<lparr>Event.EventDate = 1741564800000000000, EventDescription = ''Elternabend 18:00Uhr''\<rparr>]"
  using extractEvents_containers [of elternabendContainer "[]" "\<lambda>body. Inr calendarPage" "''<html>''" calendarPage]
  by (simp add: calendarPage_containers elternabendContainer_event)

lemma emptyContainerPage_events:
  "extractEvents (\<lambda>body. Inr emptyContainerPage) ''<html>''
     = Inr [\<lparr>Event.EventDate = 1741564800000000000, EventDescription = ''''\<rparr>]"
  by code_simp

text \<open>
  C6 as stated fails: \<^verbatim>\<open>extractEvents\<close> has no check of the description, and a
  container whose text normalizes to the empty string is returned with that description.
\<close>

theorem extractEvents_nonempty_counterexample:
  "extractEvents (\<lambda>body. Inr emptyContainerPage) ''<html>''
     = Inr [\<lparr>Event.EventDate = 1741564800000000000, EventDescription = ''''\<rparr>]
   \<and> \<not> list_all (\<lambda>e. EventDescription e \<noteq> '''')
         [\<lparr>Event.EventDate = 1741564800000000000, EventDescription = ''''\<rparr>]"
  by (simp add: emptyContainerPage_events)

text \<open>
  C6, amended. The descriptions of the events returned are the normalized text contents
  of the event containers of the document, one for each container in document order,
  whether empty or not.
\<close>

theorem extractEvents_descriptions:
  assumes "html_Parse body = Inr doc" and "extractEvents html_Parse body = Inr events"
  shows "map EventDescription events
    = map (\<lambda>n. cleanText (getTextContent n)) (filter isEventContainer (nodes doc))"
proof -
  from assms have "events = map eventOfContainer (filter isEventContainer (nodes doc))"
    by (simp add: extractEvents_def traverse_containers)
  then show ?thesis by (simp add: eventOfContainer_def comp_def)
qed

lemma emptyContainerPage_texts:
  "map (\<lambda>n. cleanText (getTextContent n)) (filter isEventContainer (nodes emptyContainerPage)) = ['''']"
  by code_simp

theorem extractEvents_descriptions_witness:
  "extractEvents (\<lambda>body. Inr emptyContainerPage) ''<html>''
     = Inr [\<lparr>Event.EventDate = 1741564800000000000, EventDescription = ''''\<rparr>]
   \<and> map EventDescription [\<lparr>Event.EventDate = 1741564800000000000, EventDescription = ''''\<rparr>]
     = map (\<lambda>n. cleanText (getTextContent n)) (filter isEventContainer (nodes emptyContainerPage))
   \<and> map (\<lambda>n. cleanText (getTextContent n)) (filter isEventContainer (nodes emptyContainerPage))
     = ['''']"
  using extractEvents_descriptions [OF refl emptyContainerPage_events]
  by (simp add: emptyContainerPage_events emptyContainerPage_texts)

section \<open>The notification trigger\<close>

lemma HandleRequest_no_report:
  assumes "configError env \<noteq> None \<or> requestError env \<noteq> None \<or> doError env \<noteq> None
    \<or> (\<exists>err. readAll env = Inl err)
    \<or> (\<exists>body err. readAll env = Inr body \<and> extractEvents (parseHTML env) body = Inl err)
    \<or> (\<exists>body events f c. readAll env = Inr body
          \<and> extractEvents (parseHTML env) body = Inr events
          \<and> processEvents (nowDiff env) events (dynamo env) = (Inl f, c))
    \<or> (\<exists>body events report c err. readAll env = Inr body
          \<and> extractEvents (parseHTML env) body = Inr events
          \<and> processEvents (nowDiff env) events (dynamo env) = (Inr report, c)
          \<and> json_Marshal env report = Inl err)"
  shows "emails (HandleRequest env) = []"
  using assms
  by (auto simp: HandleRequest_def Let_def split: option.splits sum.splits failure.splits)

text \<open>
  C8. In an invocation that has computed and marshalled its report, \<^verbatim>\<open>sendEmail\<close> is
  called exactly when \<^verbatim>\<open>AddedCount\<close> is positive or the weekday of the run is Friday,
  and then once, with the body made from the report. In particular a run with no added
  event on another day sends nothing, however many events it deleted.
\<close>

theorem notification_trigger:
  assumes "configError env = None" "requestError env = None" "doError env = None"
    and "readAll env = Inr body"
    and "extractEvents (parseHTML env) body = Inr events"
    and "processEvents (nowDiff env) events (dynamo env) = (Inr report, c)"
    and "json_Marshal env report = Inr reportJSON"
  shows "(emails (HandleRequest env) \<noteq> []
            \<longleftrightarrow> AddedCount report > 0 \<or> Weekday (nowNotify env) = Friday)
    \<and> (AddedCount report > 0 \<or> Weekday (nowNotify env) = Friday
          \<longrightarrow> emails (HandleRequest env) = [createBody env report])
    \<and> (AddedCount report = 0 \<and> Weekday (nowNotify env) \<noteq> Friday
          \<longrightarrow> emails (HandleRequest env) = [])"
  using assms
  by (auto simp: HandleRequest_def Let_def split: sendOutcome.splits)

lemma quietDay_run:
  "processEvents t [] \<lparr>table = [stored18], scanPage = 100, budget = None, fault = ''unavailable'', journal = []\<rparr>
     = (Inr \<lparr>DeletedCount = 1, DeletedEvents = [elternabend18], AddedCount = 0, AddedEvents = [],
             UpcomingEvents = []\<rparr>,
        \<lparr>table = [], scanPage = 100, budget = None, fault = ''unavailable'',
          journal = [(Scan, True), (DeleteItem ''20250310_0644d0d5'', True)]\<rparr>)"
  by (simp add: processEvents_def getAllEvents_def attempt_def buildExistingMap_def Let_def
      elternabend18_def stored18_def deleteEvent_def deleteRow_def sortByDate_def)

lemma quietDay_extract:
  "extractEvents (parseHTML (quietDay t)) ''<html></html>'' = Inr []"
  by (simp add: quietDay_def extractEvents_def visit_def)

lemma Weekday_examples:
  "Weekday 1741564800000000000 = 1" "Weekday 1741910400000000000 = Friday"
  by (simp_all add: Weekday_def Friday_def nsPerDay_def nsPerSecond_def)

theorem notification_trigger_witness:
  "processEvents 1741564800000000000 []
       \<lparr>table = [stored18], scanPage = 100, budget = None, fault = ''unavailable'', journal = []\<rparr>
     = (Inr \<lparr>DeletedCount = 1, DeletedEvents = [elternabend18], AddedCount = 0, AddedEvents = [],
             UpcomingEvents = []\<rparr>,
        \<lparr>table = [], scanPage = 100, budget = None, fault = ''unavailable'',
          journal = [(Scan, True), (DeleteItem ''20250310_0644d0d5'', True)]\<rparr>)
   \<and> Weekday 1741564800000000000 = 1 \<and> Friday = 5
   \<and> emails (HandleRequest (quietDay 1741564800000000000)) = []
   \<and> Weekday 1741910400000000000 = Friday
   \<and> emails (HandleRequest (quietDay 1741910400000000000)) = [''<!DOCTYPE html>'']"
proof -
  have a: "configError (quietDay t) = None" "requestError (quietDay t) = None"
    "doError (quietDay t) = None" "readAll (quietDay t) = Inr ''<html></html>''"
    "json_Marshal (quietDay t) r = Inr ''{}''" "nowNotify (quietDay t) = t"
    "createBody (quietDay t) r = ''<!DOCTYPE html>''" for t r
    by (simp_all add: quietDay_def)
  have run: "processEvents (nowDiff (quietDay t)) [] (dynamo (quietDay t))
     = (Inr \<lparr>DeletedCount = 1, DeletedEvents = [elternabend18], AddedCount = 0, AddedEvents = [],
             UpcomingEvents = []\<rparr>,
        \<lparr>table = [], scanPage = 100, budget = None, fault = ''unavailable'',
          journal = [(Scan, True), (DeleteItem ''20250310_0644d0d5'', True)]\<rparr>)" for t
    using quietDay_run [of t] by (simp add: quietDay_def)
  from notification_trigger [OF a(1,2,3,4) quietDay_extract run a(5), of 1741564800000000000]
    notification_trigger [OF a(1,2,3,4) quietDay_extract run a(5), of 1741910400000000000]
  show ?thesis
    by (simp add: a Weekday_examples quietDay_run) (simp add: Friday_def)
qed

end
